theory Spec2Isabelle
  imports Main "HOL-Library.Word"
begin

section \<open>Values shared by the whole package\<close>

text \<open>
  A Go \<open>error\<close> is an interface value that may be \<open>nil\<close>: it is modelled as
  \<open>error option\<close>, \<open>None\<close> being \<open>nil\<close>. The two sentinels of package
  \<open>context\<close> are kept apart from errors made with \<open>errors.New\<close>.
\<close>

datatype error = Canceled | DeadlineExceeded | ErrorString string

text \<open>
  The channels of \<open>async.go\<close> that carry no data (\<open>chan struct{}\<close>) are only ever
  closed and received from, so a channel is either open or closed. Closing a closed
  channel panics.
\<close>

datatype chan = Open | Closed

datatype panic = CloseOfClosedChannel

fun close_chan :: "chan \<Rightarrow> panic + chan" where
  "close_chan Open = Inr Closed"
| "close_chan Closed = Inl CloseOfClosedChannel"

text \<open>
  A snapshot of a \<open>context.Context\<close>: either its \<open>Done()\<close> channel is still open and
  \<open>Err()\<close> is \<open>nil\<close>, or it has fired and \<open>Err()\<close> is the non-nil reason.
\<close>

datatype Context = NotDone | Done error

fun ctx_Done :: "Context \<Rightarrow> chan" where
  "ctx_Done NotDone = Open"
| "ctx_Done (Done e) = Closed"

fun ctx_Err :: "Context \<Rightarrow> error option" where
  "ctx_Err NotDone = None"
| "ctx_Err (Done e) = Some e"

section \<open>The work-backed promise\<close>

text \<open>\<open>type result[T any] struct { value T; err error }\<close>\<close>

record 'a result =
  val :: 'a
  err :: "error option"

text \<open>\<open>type syncPromise[T any] struct { settled int32; done chan struct{}; result result[T] }\<close>\<close>

record 'a syncPromise =
  settled :: "32 word"
  done_ch :: chan
  result :: "'a result"

text \<open>
  What a call of \<open>Await\<close> can do at a given moment: its \<open>select\<close> has no ready case
  and the caller stays blocked, or it returns a value and an error.
\<close>

datatype 'a outcome = Blocked | Returned 'a "error option"

text \<open>
  \<open>atomic.CompareAndSwapInt32(addr, old, new)\<close> and \<open>atomic.LoadInt32(addr)\<close> on the
  cell holding \<open>cur\<close>: the swap reports whether it happened and gives the cell's new
  content.
\<close>

definition CompareAndSwapInt32 :: "32 word \<Rightarrow> 32 word \<Rightarrow> 32 word \<Rightarrow> bool \<times> 32 word" where
  "CompareAndSwapInt32 cur old new = (if cur = old then (True, new) else (False, cur))"

definition LoadInt32 :: "32 word \<Rightarrow> 32 word" where
  "LoadInt32 cur = cur"

text \<open>
  \<open>syncPromise.Await\<close>: a \<open>select\<close> over \<open>ctx.Done()\<close> and \<open>s.done\<close>. When both
  channels are closed the Go runtime chooses one of the two cases; \<open>pick\<close> is that
  choice (\<open>True\<close> for the first case, \<open>ctx.Done()\<close>). The method writes no field, so
  the promise is returned as it was passed.
\<close>

definition Await :: "'a \<Rightarrow> bool \<Rightarrow> Context \<Rightarrow> 'a syncPromise \<Rightarrow> 'a outcome \<times> 'a syncPromise" where
  "Await zerov pick ctx s =
     (if ctx_Done ctx = Closed \<and> (done_ch s = Open \<or> pick)
        then (Returned zerov (ctx_Err ctx), s)
      else if done_ch s = Closed
        then (Returned (val (result s)) (err (result s)), s)
      else (Blocked, s))"

text \<open>\<open>syncPromise.Settled\<close>\<close>

definition Settled :: "'a syncPromise \<Rightarrow> bool" where
  "Settled s = (LoadInt32 (settled s) = 1)"

text \<open>
  The three shared-memory accesses of \<open>resolve\<close> and \<open>reject\<close>, in program order:
  the compare-and-swap on \<open>s.settled\<close>, the assignment to \<open>s.result\<close>, and
  \<open>close(s.done)\<close>.
\<close>

definition cas_settled :: "'a syncPromise \<Rightarrow> bool \<times> 'a syncPromise" where
  "cas_settled s =
     (case CompareAndSwapInt32 (settled s) 0 1 of (swapped, n) \<Rightarrow> (swapped, s\<lparr>settled := n\<rparr>))"

definition store_result :: "'a result \<Rightarrow> 'a syncPromise \<Rightarrow> 'a syncPromise" where
  "store_result r s = s\<lparr>result := r\<rparr>"

definition close_done :: "'a syncPromise \<Rightarrow> panic + 'a syncPromise" where
  "close_done s = (case close_chan (done_ch s) of Inl p \<Rightarrow> Inl p | Inr c \<Rightarrow> Inr (s\<lparr>done_ch := c\<rparr>))"

text \<open>
  \<open>syncPromise.resolve\<close> and \<open>syncPromise.reject\<close>, run without interruption. The
  composite literal \<open>result[T]{err: err}\<close> leaves \<open>value\<close> at the zero value of \<open>T\<close>,
  which is the parameter \<open>zerov\<close>; \<open>result[T]{value: v}\<close> leaves \<open>err\<close> at \<open>nil\<close>.
\<close>

definition resolve :: "'a \<Rightarrow> 'a syncPromise \<Rightarrow> panic + 'a syncPromise" where
  "resolve v s =
     (case cas_settled s of
        (True, s1) \<Rightarrow> close_done (store_result \<lparr>val = v, err = None\<rparr> s1)
      | (False, s1) \<Rightarrow> Inr s1)"

definition reject :: "'a \<Rightarrow> error option \<Rightarrow> 'a syncPromise \<Rightarrow> panic + 'a syncPromise" where
  "reject zerov e s =
     (case cas_settled s of
        (True, s1) \<Rightarrow> close_done (store_result \<lparr>val = zerov, err = e\<rparr> s1)
      | (False, s1) \<Rightarrow> Inr s1)"

text \<open>A settlement attempt, and a sequence of attempts made one after the other.\<close>

datatype 'a attempt = CallResolve 'a | CallReject "error option"

fun settle :: "'a \<Rightarrow> 'a attempt \<Rightarrow> 'a syncPromise \<Rightarrow> panic + 'a syncPromise" where
  "settle zerov (CallResolve v) s = resolve v s"
| "settle zerov (CallReject e) s = reject zerov e s"

fun settle_all :: "'a \<Rightarrow> 'a attempt list \<Rightarrow> 'a syncPromise \<Rightarrow> panic + 'a syncPromise" where
  "settle_all zerov [] s = Inr s"
| "settle_all zerov (a # as) s =
     (case settle zerov a s of Inl p \<Rightarrow> Inl p | Inr s' \<Rightarrow> settle_all zerov as s')"

subsection \<open>The goroutine started by \<open>NewPromise\<close>\<close>

text \<open>
  The goroutine runs \<open>fn\<close>, then \<open>reject(err)\<close> when the error is not \<open>nil\<close> and
  \<open>resolve(v)\<close> otherwise. Other goroutines can observe the promise between any two
  of its shared-memory accesses, so the goroutine is a small machine with one
  transition per access: \<open>Running\<close> (inside \<open>fn\<close>; the transition out of it is the
  return of \<open>fn\<close> followed by the compare-and-swap), \<open>Storing r\<close> (the swap
  succeeded, \<open>s.result = r\<close> is next), \<open>Closing\<close> (\<open>close(s.done)\<close> is next),
  \<open>Exited\<close>, and \<open>Panicked\<close>.
\<close>

datatype 'a pc = Running | Storing "'a result" | Closing | Exited | Panicked panic

fun goroutine_step ::
  "'a \<Rightarrow> (unit \<Rightarrow> 'a \<times> error option) \<Rightarrow> 'a pc \<times> 'a syncPromise \<Rightarrow> 'a pc \<times> 'a syncPromise" where
  "goroutine_step zerov fn (Running, c) =
     (case fn () of (v, e) \<Rightarrow>
        (case cas_settled c of
           (True, c1) \<Rightarrow>
             (Storing (if e \<noteq> None then \<lparr>val = zerov, err = e\<rparr> else \<lparr>val = v, err = None\<rparr>), c1)
         | (False, c1) \<Rightarrow> (Exited, c1)))"
| "goroutine_step zerov fn (Storing r, c) = (Closing, store_result r c)"
| "goroutine_step zerov fn (Closing, c) =
     (case close_done c of Inl p \<Rightarrow> (Panicked p, c) | Inr c1 \<Rightarrow> (Exited, c1))"
| "goroutine_step zerov fn (Exited, c) = (Exited, c)"
| "goroutine_step zerov fn (Panicked p, c) = (Panicked p, c)"

text \<open>
  \<open>NewPromise\<close>: the fresh struct (\<open>settled\<close> is 0, \<open>done\<close> a new open channel,
  \<open>result\<close> the zero \<open>result[T]\<close>) and its goroutine, not yet scheduled.
\<close>

definition NewPromise :: "'a \<Rightarrow> (unit \<Rightarrow> 'a \<times> error option) \<Rightarrow> 'a pc \<times> 'a syncPromise" where
  "NewPromise zerov fn =
     (Running, \<lparr>settled = 0, done_ch = Open, result = \<lparr>val = zerov, err = None\<rparr>\<rparr>)"

text \<open>The function \<open>func() (T, error) { return v, e }\<close>.\<close>

definition returning :: "'a \<Rightarrow> error option \<Rightarrow> unit \<Rightarrow> 'a \<times> error option" where
  "returning v e u = (v, e)"

text \<open>The states a promise made by \<open>NewPromise zerov fn\<close> can be observed in.\<close>

inductive reachable :: "'a \<Rightarrow> (unit \<Rightarrow> 'a \<times> error option) \<Rightarrow> 'a pc \<times> 'a syncPromise \<Rightarrow> bool"
  for zerov :: 'a and fn :: "unit \<Rightarrow> 'a \<times> error option" where
  reachable_new: "reachable zerov fn (NewPromise zerov fn)"
| reachable_step: "reachable zerov fn st \<Longrightarrow> reachable zerov fn (goroutine_step zerov fn st)"

text \<open>
  The goroutine takes at most three steps, so these are the states of the first four
  moments of the promise's life, in order; \<open>reachable_lifetime\<close> shows there are no
  others.
\<close>

definition lifetime :: "'a \<Rightarrow> (unit \<Rightarrow> 'a \<times> error option) \<Rightarrow> ('a pc \<times> 'a syncPromise) list" where
  "lifetime zerov fn = map (\<lambda>k. (goroutine_step zerov fn ^^ k) (NewPromise zerov fn)) [0..<4]"

text \<open>
  A caller blocked in \<open>Await\<close> stays blocked while the goroutine runs: the call is
  retried after each step of the goroutine, \<open>fuel\<close> bounding the steps waited for.
  \<open>None\<close> means the caller is still blocked when the fuel is used up.
\<close>

fun Await_blocking ::
  "nat \<Rightarrow> 'a \<Rightarrow> (unit \<Rightarrow> 'a \<times> error option) \<Rightarrow> bool \<Rightarrow> Context \<Rightarrow> 'a pc \<times> 'a syncPromise
     \<Rightarrow> ('a \<times> error option) option" where
  "Await_blocking 0 zerov fn pick ctx (p, c) =
     (case fst (Await zerov pick ctx c) of Blocked \<Rightarrow> None | Returned v e \<Rightarrow> Some (v, e))"
| "Await_blocking (Suc n) zerov fn pick ctx (p, c) =
     (case fst (Await zerov pick ctx c) of
        Blocked \<Rightarrow> Await_blocking n zerov fn pick ctx (goroutine_step zerov fn (p, c))
      | Returned v e \<Rightarrow> Some (v, e))"

section \<open>Promises settled at construction\<close>

text \<open>\<open>type rp[T any] struct { result result[T] }\<close>\<close>

record 'a rp =
  rp_result :: "'a result"

definition rp_Settled :: "'a rp \<Rightarrow> bool" where
  "rp_Settled r = True"

definition rp_Await :: "Context \<Rightarrow> 'a rp \<Rightarrow> 'a outcome \<times> 'a rp" where
  "rp_Await ctx r = (Returned (val (rp_result r)) (err (rp_result r)), r)"

definition Resolve :: "'a \<Rightarrow> 'a rp" where
  "Resolve v = \<lparr>rp_result = \<lparr>val = v, err = None\<rparr>\<rparr>"

definition Reject :: "'a \<Rightarrow> error option \<Rightarrow> 'a rp" where
  "Reject zerov e = \<lparr>rp_result = \<lparr>val = zerov, err = e\<rparr>\<rparr>"

section \<open>The \<open>Promise\<close> interface\<close>

text \<open>
  The two implementations of \<open>Promise[T]\<close> in the package. A work-backed promise is
  the struct together with the goroutine \<open>NewPromise\<close> started for it: the function it
  runs and where that goroutine stands.
\<close>

datatype 'a promise =
  SyncPromise "unit \<Rightarrow> 'a \<times> error option" "'a pc" "'a syncPromise"
| RP "'a rp"

fun promise_Settled :: "'a promise \<Rightarrow> bool" where
  "promise_Settled (SyncPromise fn p c) = Settled c"
| "promise_Settled (RP r) = rp_Settled r"

fun promise_Await :: "'a \<Rightarrow> bool \<Rightarrow> Context \<Rightarrow> 'a promise \<Rightarrow> 'a outcome \<times> 'a promise" where
  "promise_Await zerov pick ctx (SyncPromise fn p c) =
     (case Await zerov pick ctx c of (r, c') \<Rightarrow> (r, SyncPromise fn p c'))"
| "promise_Await zerov pick ctx (RP r) =
     (case rp_Await ctx r of (x, r') \<Rightarrow> (x, RP r'))"

text \<open>The value of type \<open>Promise[T]\<close> that \<open>NewPromise\<close> returns.\<close>

definition NewPromise_p :: "'a \<Rightarrow> (unit \<Rightarrow> 'a \<times> error option) \<Rightarrow> 'a promise" where
  "NewPromise_p zerov fn = (case NewPromise zerov fn of (p, c) \<Rightarrow> SyncPromise fn p c)"

text \<open>One step of the goroutine behind a promise; a pre-settled promise has none.\<close>

fun promise_step :: "'a \<Rightarrow> 'a promise \<Rightarrow> 'a promise" where
  "promise_step zerov (SyncPromise fn p c) =
     (case goroutine_step zerov fn (p, c) of (p', c') \<Rightarrow> SyncPromise fn p' c')"
| "promise_step zerov (RP r) = RP r"

section \<open>\<open>All\<close>\<close>

text \<open>
  \<open>context.WithCancel(ctx)\<close> gives a child context that is done as soon as the parent
  is, with the parent's error, or as soon as \<open>cancel\<close> is called, with
  \<open>context.Canceled\<close>; whichever comes first stays.
\<close>

definition WithCancel :: "Context \<Rightarrow> Context" where
  "WithCancel parent_ctx = parent_ctx"

fun cancel :: "Context \<Rightarrow> Context" where
  "cancel NotDone = Done Canceled"
| "cancel (Done e) = Done e"

text \<open>
  A \<open>waiter\<close> goroutine is in \<open>p.Await(ctx)\<close>, or has assigned \<open>out[i]\<close> and is about
  to send its error on \<open>errc\<close>, or has sent it.
\<close>

datatype waiter = Awaiting | Sending "error option" | Finished

text \<open>
  The state of one call of \<open>All\<close>: the caller's context (\<open>parent\<close>) and the one
  derived from it (\<open>child\<close>, the \<open>ctx\<close> of the body), the promises, one waiter per
  promise, the slice \<open>out\<close>, the content of the buffered channel \<open>errc\<close> in arrival
  order, the loop variable of the receiving loop (\<open>recvd\<close>), and what \<open>All\<close> returned
  once it has (\<open>None\<close> in the first component being the \<open>nil\<close> slice).
\<close>

record 'a all_state =
  parent :: "Context"
  child :: "Context"
  promises :: "'a promise list"
  waiters :: "waiter list"
  out :: "'a list"
  errc :: "error option list"
  recvd :: nat
  returned :: "('a list option \<times> error option) option"

text \<open>
  What the scheduler can let happen next: the goroutine of promise \<open>j\<close> takes a step;
  waiter \<open>i\<close> takes a step (its \<open>select\<close> choosing by \<open>pick\<close>); the goroutine that
  called \<open>All\<close> takes a step; the caller's context fires with an error.
\<close>

datatype event = Work nat | Wait nat bool | Main | ParentDone error

fun all_step :: "'a \<Rightarrow> event \<Rightarrow> 'a all_state \<Rightarrow> 'a all_state" where
  "all_step zerov (Work j) s =
     (if j < length (promises s)
      then s\<lparr>promises := (promises s)[j := promise_step zerov (promises s ! j)]\<rparr>
      else s)"
| "all_step zerov (Wait i pick) s =
     (if i < length (waiters s) \<and> i < length (promises s) then
        (case waiters s ! i of
           Awaiting \<Rightarrow>
             (case promise_Await zerov pick (child s) (promises s ! i) of
                (Blocked, p') \<Rightarrow> s
              | (Returned v e, p') \<Rightarrow>
                  s\<lparr>promises := (promises s)[i := p'],
                    out := (out s)[i := v],
                    waiters := (waiters s)[i := Sending e]\<rparr>)
         | Sending e \<Rightarrow>
             (if length (errc s) < length (out s)
              then s\<lparr>errc := errc s @ [e], waiters := (waiters s)[i := Finished]\<rparr>
              else s)
         | Finished \<Rightarrow> s)
      else s)"
| "all_step zerov Main s =
     (case returned s of
        Some r \<Rightarrow> s
      | None \<Rightarrow>
          if recvd s < length (out s) then
            (case errc s of
               [] \<Rightarrow> s
             | Some x # q \<Rightarrow>
                 s\<lparr>errc := q, child := cancel (cancel (child s)),
                   returned := Some (None, Some x)\<rparr>
             | None # q \<Rightarrow> s\<lparr>errc := q, recvd := recvd s + 1\<rparr>)
          else s\<lparr>child := cancel (child s), returned := Some (Some (out s), None)\<rparr>)"
| "all_step zerov (ParentDone e) s =
     (case parent s of
        NotDone \<Rightarrow>
          s\<lparr>parent := Done e,
            child := (case child s of NotDone \<Rightarrow> Done e | Done x \<Rightarrow> Done x)\<rparr>
      | Done x \<Rightarrow> s)"

fun run_events :: "'a \<Rightarrow> event list \<Rightarrow> 'a all_state \<Rightarrow> 'a all_state" where
  "run_events zerov [] s = s"
| "run_events zerov (ev # evs) s = run_events zerov evs (all_step zerov ev s)"

text \<open>
  The state in which \<open>All\<close> enters its receiving loop: the child context derived,
  \<open>out\<close> made of \<open>len(promises)\<close> zero values, \<open>errc\<close> empty, one waiter started per
  promise.
\<close>

definition All_init :: "'a \<Rightarrow> Context \<Rightarrow> 'a promise list \<Rightarrow> 'a all_state" where
  "All_init zerov ctx ps =
     \<lparr>parent = ctx, child = WithCancel ctx, promises = ps,
      waiters = replicate (length ps) Awaiting, out = replicate (length ps) zerov,
      errc = [], recvd = 0, returned = None\<rparr>"

text \<open>What \<open>All(ctx, promises)\<close> has returned after the events \<open>evs\<close>, if it has.\<close>

definition All_promises ::
  "'a \<Rightarrow> event list \<Rightarrow> Context \<Rightarrow> 'a promise list \<Rightarrow> ('a list option \<times> error option) option" where
  "All_promises zerov evs ctx ps = returned (run_events zerov evs (All_init zerov ctx ps))"

section \<open>Specification-side definitions\<close>

text \<open>
  The result a promise made by \<open>NewPromise\<close> is expected to hold once the function
  has returned \<open>(v, e)\<close>: the error with the zero value when \<open>e\<close> is not \<open>nil\<close>,
  the value with a \<open>nil\<close> error otherwise.
\<close>

definition settled_result :: "'a \<Rightarrow> 'a \<times> error option \<Rightarrow> 'a result" where
  "settled_result zerov r =
     (case r of (v, e) \<Rightarrow> if e \<noteq> None then \<lparr>val = zerov, err = e\<rparr> else \<lparr>val = v, err = None\<rparr>)"

text \<open>
  Promise \<open>p\<close> settles successfully with value \<open>v\<close>: it was made by \<open>Resolve v\<close>, or by
  \<open>NewPromise\<close> from a function that returns \<open>v\<close> and a \<open>nil\<close> error (and is at any
  point of its life).
\<close>

fun settles_with :: "'a \<Rightarrow> 'a promise \<Rightarrow> 'a \<Rightarrow> bool" where
  "settles_with zerov (SyncPromise fn p c) v = (fn () = (v, None) \<and> reachable zerov fn (p, c))"
| "settles_with zerov (RP r) v = (r = Resolve v)"

text \<open>The events in which the caller's context does not fire.\<close>

fun internal :: "event \<Rightarrow> bool" where
  "internal (ParentDone e) = False"
| "internal ev = True"

text \<open>
  A schedule that lets everything run to its end: for each promise in turn its
  goroutine and then its waiter (\<open>block\<close>), then the goroutine that called \<open>All\<close>.
\<close>

definition block :: "nat \<Rightarrow> event list" where
  "block j = [Work j, Work j, Work j, Wait j False, Wait j False]"

definition finish :: "nat \<Rightarrow> event list" where
  "finish n = concat (map block [0..<n]) @ replicate (Suc n) Main"

section \<open>Invariants of \<open>All\<close>\<close>

text \<open>
  Whatever the promises and the schedule: the three sequences keep the length of the
  input, every error received or still in the channel was sent by a waiter that has
  finished, and an error is only ever returned with the \<open>nil\<close> slice and the child
  context fired.
\<close>

definition count_finished :: "waiter list \<Rightarrow> nat" where
  "count_finished ws = length (filter (\<lambda>w. w = Finished) ws)"

definition all_inv :: "nat \<Rightarrow> 'a all_state \<Rightarrow> bool" where
  "all_inv n s =
     (length (promises s) = n \<and> length (waiters s) = n \<and> length (out s) = n
      \<and> (case returned s of
            None \<Rightarrow> recvd s + length (errc s) = count_finished (waiters s)
          | Some (r, e) \<Rightarrow> e = None \<or> (r = None \<and> child s \<noteq> NotDone)))"

text \<open>
  While \<open>All\<close> runs over promises that settle with the values \<open>vs\<close> under a
  caller's context that has not fired: the child context has not fired either, every
  waiter that is past \<open>Await\<close> has put the value of its promise in its slot and holds
  a \<open>nil\<close> error, and only \<open>nil\<close> errors are in the channel.
\<close>

fun waiter_ok :: "waiter \<Rightarrow> 'a \<Rightarrow> 'a \<Rightarrow> bool" where
  "waiter_ok Awaiting x v = True"
| "waiter_ok (Sending e) x v = (e = None \<and> x = v)"
| "waiter_ok Finished x v = (x = v)"

definition running_inv :: "'a \<Rightarrow> 'a list \<Rightarrow> 'a all_state \<Rightarrow> bool" where
  "running_inv zerov vs s =
     (all_inv (length vs) s \<and> returned s = None \<and> parent s = NotDone \<and> child s = NotDone
      \<and> list_all2 (settles_with zerov) (promises s) vs
      \<and> (\<forall>i < length vs. waiter_ok (waiters s ! i) (out s ! i) (vs ! i))
      \<and> (\<forall>e \<in> set (errc s). e = None))"

definition succeed_inv :: "'a \<Rightarrow> 'a list \<Rightarrow> 'a all_state \<Rightarrow> bool" where
  "succeed_inv zerov vs s = (running_inv zerov vs s \<or> returned s = Some (Some vs, None))"

text \<open>
  Promise \<open>p\<close> yields the error \<open>e\<close>: it is a pre-settled promise holding \<open>e\<close>, or
  it was made by \<open>NewPromise\<close> from a function that returns \<open>e\<close> (and is at any
  point of its life).
\<close>

fun yields_error :: "'a \<Rightarrow> 'a promise \<Rightarrow> error \<Rightarrow> bool" where
  "yields_error zerov (SyncPromise fn p c) e = (snd (fn ()) = Some e \<and> reachable zerov fn (p, c))"
| "yields_error zerov (RP r) e = (err (rp_result r) = Some e)"

text \<open>
  While \<open>All\<close> runs over promises of which number \<open>j\<close> yields an error: the waiter
  of that promise is still in \<open>Await\<close>, or holds a non-nil error to send, or has
  sent one that is still in the channel. Once \<open>All\<close> has returned, it has returned
  the \<open>nil\<close> slice with an error, and the child context has fired.
\<close>

fun waiter_failing :: "waiter \<Rightarrow> error option list \<Rightarrow> bool" where
  "waiter_failing Awaiting q = True"
| "waiter_failing (Sending x) q = (x \<noteq> None)"
| "waiter_failing Finished q = (\<exists>x \<in> set q. x \<noteq> None)"

definition failing_inv :: "'a \<Rightarrow> nat \<Rightarrow> error \<Rightarrow> nat \<Rightarrow> 'a all_state \<Rightarrow> bool" where
  "failing_inv zerov j e n s =
     (all_inv n s \<and> j < n \<and> returned s = None
      \<and> yields_error zerov (promises s ! j) e
      \<and> waiter_failing (waiters s ! j) (errc s))"

definition fail_inv :: "'a \<Rightarrow> nat \<Rightarrow> error \<Rightarrow> nat \<Rightarrow> 'a all_state \<Rightarrow> bool" where
  "fail_inv zerov j e n s =
     (failing_inv zerov j e n s
      \<or> (\<exists>x. returned s = Some (None, Some x)) \<and> child s \<noteq> NotDone)"

section \<open>Settlement happens once\<close>

lemma resolve_settled: "settled s \<noteq> 0 \<Longrightarrow> resolve v s = Inr s"
  by (simp add: resolve_def cas_settled_def CompareAndSwapInt32_def)

lemma reject_settled: "settled s \<noteq> 0 \<Longrightarrow> reject zerov e s = Inr s"
  by (simp add: reject_def cas_settled_def CompareAndSwapInt32_def)

lemma settle_settled: "settled s \<noteq> 0 \<Longrightarrow> settle zerov a s = Inr s"
  by (cases a) (simp_all add: resolve_settled reject_settled)

lemma settle_all_settled: "settled s \<noteq> 0 \<Longrightarrow> settle_all zerov as s = Inr s"
  by (induction as) (simp_all add: settle_settled)

lemma resolve_pending:
  "settled s = 0 \<Longrightarrow> done_ch s = Open \<Longrightarrow>
   resolve v s = Inr (s\<lparr>settled := 1, result := \<lparr>val = v, err = None\<rparr>, done_ch := Closed\<rparr>)"
  by (simp add: resolve_def cas_settled_def CompareAndSwapInt32_def store_result_def close_done_def)

lemma reject_pending:
  "settled s = 0 \<Longrightarrow> done_ch s = Open \<Longrightarrow>
   reject zerov e s = Inr (s\<lparr>settled := 1, result := \<lparr>val = zerov, err = e\<rparr>, done_ch := Closed\<rparr>)"
  by (simp add: reject_def cas_settled_def CompareAndSwapInt32_def store_result_def close_done_def)

text \<open>
  Claim C1. On a pending work-backed promise the first \<open>resolve\<close> or \<open>reject\<close>
  succeeds, marks the promise settled and stores its result; every later sequence of
  calls of \<open>resolve\<close> and \<open>reject\<close>, with any arguments and in any order, returns
  the promise exactly as the first call left it and does not panic.
\<close>

theorem settle_twice_is_idempotent:
  assumes "settled s = 0" and "done_ch s = Open"
  shows "\<exists>s1. settle zerov a s = Inr s1 \<and> Settled s1
           \<and> result s1 = (case a of CallResolve v \<Rightarrow> \<lparr>val = v, err = None\<rparr>
                                    | CallReject e \<Rightarrow> \<lparr>val = zerov, err = e\<rparr>)
           \<and> (\<forall>as. settle_all zerov as s1 = Inr s1)"
proof (cases a)
  case (CallResolve v)
  let ?s1 = "s\<lparr>settled := 1, result := \<lparr>val = v, err = None\<rparr>, done_ch := Closed\<rparr>"
  have "settle zerov a s = Inr ?s1"
    using assms CallResolve by (simp add: resolve_pending)
  moreover have "Settled ?s1" by (simp add: Settled_def LoadInt32_def)
  moreover have "\<forall>as. settle_all zerov as ?s1 = Inr ?s1"
    by (simp add: settle_all_settled)
  ultimately show ?thesis using CallResolve by simp
next
  case (CallReject e)
  let ?s1 = "s\<lparr>settled := 1, result := \<lparr>val = zerov, err = e\<rparr>, done_ch := Closed\<rparr>"
  have "settle zerov a s = Inr ?s1"
    using assms CallReject by (simp add: reject_pending)
  moreover have "Settled ?s1" by (simp add: Settled_def LoadInt32_def)
  moreover have "\<forall>as. settle_all zerov as ?s1 = Inr ?s1"
    by (simp add: settle_all_settled)
  ultimately show ?thesis using CallReject by simp
qed

theorem settle_twice_is_idempotent_witness:
  "settled (snd (NewPromise (0::int) (returning 42 None))) = 0
   \<and> done_ch (snd (NewPromise (0::int) (returning 42 None))) = Open
   \<and> (\<exists>s1. settle 0 (CallResolve 42) (snd (NewPromise (0::int) (returning 42 None))) = Inr s1
         \<and> Settled s1 \<and> result s1 = \<lparr>val = 42, err = None\<rparr>
         \<and> settle_all 0 [CallReject (Some Canceled), CallResolve 7, CallResolve 42] s1 = Inr s1)"
proof -
  let ?c = "snd (NewPromise (0::int) (returning 42 None))"
  have h1: "settled ?c = 0" and h2: "done_ch ?c = Open"
    by (simp_all add: NewPromise_def)
  from settle_twice_is_idempotent [OF h1 h2, of 0 "CallResolve 42"]
  obtain s1 where "settle 0 (CallResolve 42) ?c = Inr s1" and "Settled s1"
    and "result s1 = \<lparr>val = 42, err = None\<rparr>"
    and "\<forall>as. settle_all 0 as s1 = Inr s1"
    by auto
  then show ?thesis using h1 h2 by blast
qed

section \<open>The reachable states of a work-backed promise\<close>

text \<open>The four states a promise goes through, in order.\<close>

lemma goroutine_step_new:
  "goroutine_step zerov fn (NewPromise zerov fn) =
     (Storing (settled_result zerov (fn ())),
      \<lparr>settled = 1, done_ch = Open, result = \<lparr>val = zerov, err = None\<rparr>\<rparr>)"
  by (simp add: NewPromise_def cas_settled_def CompareAndSwapInt32_def settled_result_def
      split: prod.splits)

lemma goroutine_step_storing:
  "goroutine_step zerov fn
     (Storing r, \<lparr>settled = 1, done_ch = Open, result = \<lparr>val = zerov, err = None\<rparr>\<rparr>) =
     (Closing, \<lparr>settled = 1, done_ch = Open, result = r\<rparr>)"
  by (simp add: store_result_def)

lemma goroutine_step_closing:
  "goroutine_step zerov fn (Closing, \<lparr>settled = 1, done_ch = Open, result = r\<rparr>) =
     (Exited, \<lparr>settled = 1, done_ch = Closed, result = r\<rparr>)"
  by (simp add: close_done_def)

lemma reachable_cases:
  assumes "reachable zerov fn st"
  shows "st = (Running, \<lparr>settled = 0, done_ch = Open, result = \<lparr>val = zerov, err = None\<rparr>\<rparr>)
       \<or> st = (Storing (settled_result zerov (fn ())),
               \<lparr>settled = 1, done_ch = Open, result = \<lparr>val = zerov, err = None\<rparr>\<rparr>)
       \<or> st = (Closing, \<lparr>settled = 1, done_ch = Open, result = settled_result zerov (fn ())\<rparr>)
       \<or> st = (Exited, \<lparr>settled = 1, done_ch = Closed, result = settled_result zerov (fn ())\<rparr>)"
  using assms
proof (induction rule: reachable.induct)
  case reachable_new
  then show ?case by (simp add: NewPromise_def)
next
  case (reachable_step st)
  then show ?case
    using goroutine_step_new [of zerov fn] goroutine_step_storing [of zerov fn]
      goroutine_step_closing [of zerov fn]
    by (auto simp: NewPromise_def)
qed

lemma reachable_closed_settled:
  "reachable zerov fn (p, c) \<Longrightarrow> done_ch c = Closed \<Longrightarrow> Settled c"
  by (drule reachable_cases) (auto simp: Settled_def LoadInt32_def)

lemma reachable_unsettled_open:
  "reachable zerov fn (p, c) \<Longrightarrow> \<not> Settled c \<Longrightarrow> done_ch c = Open"
  by (drule reachable_cases) (auto simp: Settled_def LoadInt32_def)

lemma reachable_closed_result:
  "reachable zerov fn (p, c) \<Longrightarrow> done_ch c = Closed \<Longrightarrow> result c = settled_result zerov (fn ())"
  by (drule reachable_cases) auto

lemma lifetime_states:
  "lifetime zerov fn =
     [(Running, \<lparr>settled = 0, done_ch = Open, result = \<lparr>val = zerov, err = None\<rparr>\<rparr>),
      (Storing (settled_result zerov (fn ())),
       \<lparr>settled = 1, done_ch = Open, result = \<lparr>val = zerov, err = None\<rparr>\<rparr>),
      (Closing, \<lparr>settled = 1, done_ch = Open, result = settled_result zerov (fn ())\<rparr>),
      (Exited, \<lparr>settled = 1, done_ch = Closed, result = settled_result zerov (fn ())\<rparr>)]"
proof -
  have "[0..<4] = [0, Suc 0, Suc (Suc 0), Suc (Suc (Suc 0))]"
    by (simp add: upt_rec)
  then show ?thesis
    using goroutine_step_new [of zerov fn] goroutine_step_storing [of zerov fn]
      goroutine_step_closing [of zerov fn]
    by (simp add: lifetime_def del: goroutine_step.simps) (simp add: NewPromise_def)
qed

lemma reachable_lifetime [code]:
  "reachable zerov fn st \<longleftrightarrow> st \<in> set (lifetime zerov fn)"
proof
  assume "reachable zerov fn st"
  then show "st \<in> set (lifetime zerov fn)"
    using reachable_cases [of zerov fn st] by (auto simp: lifetime_states)
next
  have r0: "reachable zerov fn (NewPromise zerov fn)" by (rule reachable_new)
  from reachable_step [OF r0]
  have r1: "reachable zerov fn (Storing (settled_result zerov (fn ())),
       \<lparr>settled = 1, done_ch = Open, result = \<lparr>val = zerov, err = None\<rparr>\<rparr>)"
    by (simp only: goroutine_step_new)
  from reachable_step [OF r1]
  have r2: "reachable zerov fn
      (Closing, \<lparr>settled = 1, done_ch = Open, result = settled_result zerov (fn ())\<rparr>)"
    by (simp only: goroutine_step_storing)
  from reachable_step [OF r2]
  have r3: "reachable zerov fn
      (Exited, \<lparr>settled = 1, done_ch = Closed, result = settled_result zerov (fn ())\<rparr>)"
    by (simp only: goroutine_step_closing)
  assume "st \<in> set (lifetime zerov fn)"
  then show "reachable zerov fn st"
    using r0 r1 r2 r3 by (auto simp: lifetime_states NewPromise_def)
qed

lemma Await_unchanged: "snd (Await zerov pick ctx s) = s"
  by (simp add: Await_def)

text \<open>
  Claim C2. On a promise made by \<open>NewPromise\<close> that is not settled, \<open>Await\<close> with a
  context that has already fired returns the zero value and the context's error,
  whatever the \<open>select\<close> would choose, and hands the promise back with every field
  as it was, so \<open>Settled\<close> is still false. No call of \<open>Await\<close>, on any promise
  and with any context, changes the promise.
\<close>

theorem Await_cancelled_does_not_settle:
  assumes "reachable zerov fn (p, c)" and "\<not> Settled c"
  shows "Await zerov pick (Done e) c = (Returned zerov (Some e), c)
       \<and> \<not> Settled (snd (Await zerov pick (Done e) c))
       \<and> (\<forall>pick' ctx' c'. snd (Await zerov pick' ctx' (c' :: 'a syncPromise)) = c')"
proof -
  have "done_ch c = Open"
    using assms by (rule reachable_unsettled_open)
  then have "Await zerov pick (Done e) c = (Returned zerov (Some e), c)"
    by (simp add: Await_def)
  then show ?thesis
    using assms(2) by (simp add: Await_unchanged)
qed

theorem Await_cancelled_does_not_settle_witness:
  "reachable (0::int) (returning 42 None) (NewPromise 0 (returning 42 None))
   \<and> \<not> Settled (snd (NewPromise (0::int) (returning 42 None)))
   \<and> Await 0 True (Done DeadlineExceeded) (snd (NewPromise (0::int) (returning 42 None)))
       = (Returned 0 (Some DeadlineExceeded), snd (NewPromise (0::int) (returning 42 None)))"
proof -
  let ?fn = "returning (42::int) None"
  have h1: "reachable 0 ?fn (Running, snd (NewPromise 0 ?fn))"
    using reachable_new [of 0 ?fn] by (simp add: NewPromise_def)
  have h2: "\<not> Settled (snd (NewPromise 0 ?fn))"
    by (simp add: NewPromise_def Settled_def LoadInt32_def)
  from Await_cancelled_does_not_settle [OF h1 h2, of True DeadlineExceeded]
  show ?thesis using h1 h2 by (simp add: NewPromise_def)
qed

section \<open>Pre-settled promises\<close>

text \<open>
  Claim C5. The promises made by \<open>Resolve\<close> and \<open>Reject\<close> are settled from the
  start, and \<open>Await\<close> on them returns the value with a \<open>nil\<close> error, respectively
  the zero value with the error, for every context, a cancelled one included.
\<close>

theorem pre_settled_constructors:
  "rp_Settled (Resolve v) \<and> rp_Settled (Reject zerov e)
   \<and> rp_Await ctx (Resolve v) = (Returned v None, Resolve v)
   \<and> rp_Await ctx (Reject zerov e) = (Returned zerov e, Reject zerov e)
   \<and> fst (rp_Await (Done Canceled) (Resolve v)) = Returned v None
   \<and> fst (rp_Await (Done Canceled) (Reject zerov e)) = Returned zerov e"
  by (simp add: rp_Settled_def rp_Await_def Resolve_def Reject_def)

section \<open>\<open>Settled\<close> and the completion signal\<close>

text \<open>
  Claim C6 asks that \<open>Settled\<close> be true exactly when \<open>done\<close> has been closed. One
  direction holds in every reachable state (\<open>reachable_closed_settled\<close>). The other
  fails between the compare-and-swap and \<open>close(s.done)\<close>: after the first step of the
  goroutine of \<open>NewPromise\<close> (for a function returning 42 and \<open>nil\<close>) the promise
  reports \<open>Settled\<close> while \<open>done\<close> is open and \<open>Await\<close> blocks.
\<close>

theorem Settled_while_Await_blocks:
  "reachable (0::int) (returning 42 None) (goroutine_step 0 (returning 42 None) (NewPromise 0 (returning 42 None)))
   \<and> Settled (snd (goroutine_step (0::int) (returning 42 None) (NewPromise 0 (returning 42 None))))
   \<and> done_ch (snd (goroutine_step (0::int) (returning 42 None) (NewPromise 0 (returning 42 None)))) = Open
   \<and> fst (Await 0 True NotDone (snd (goroutine_step (0::int) (returning 42 None) (NewPromise 0 (returning 42 None)))))
       = Blocked
   \<and> fst (Await 0 False NotDone (snd (goroutine_step (0::int) (returning 42 None) (NewPromise 0 (returning 42 None)))))
       = Blocked"
  by (simp add: reachable_step reachable_new)
     (simp add: NewPromise_def cas_settled_def CompareAndSwapInt32_def Settled_def LoadInt32_def
       Await_def returning_def)

section \<open>Every reader gets the same result\<close>

lemma Await_blocking_exited:
  "Await_blocking n zerov fn pick NotDone (p, \<lparr>settled = 1, done_ch = Closed, result = r\<rparr>)
     = Some (val r, err r)"
  by (cases n) (simp_all add: Await_def)

lemma Await_blocking_closing:
  "Await_blocking (Suc n) zerov fn pick NotDone
     (Closing, \<lparr>settled = 1, done_ch = Open, result = r\<rparr>) = Some (val r, err r)"
  by (simp add: Await_def close_done_def Await_blocking_exited)

lemma Await_blocking_storing:
  "Await_blocking (Suc (Suc n)) zerov fn pick NotDone
     (Storing r, \<lparr>settled = 1, done_ch = Open, result = \<lparr>val = zerov, err = None\<rparr>\<rparr>)
     = Some (val r, err r)"
proof -
  have "Await_blocking (Suc (Suc n)) zerov fn pick NotDone
          (Storing r, \<lparr>settled = 1, done_ch = Open, result = \<lparr>val = zerov, err = None\<rparr>\<rparr>)
        = Await_blocking (Suc n) zerov fn pick NotDone
          (Closing, \<lparr>settled = 1, done_ch = Open, result = r\<rparr>)"
    by (simp add: Await_def store_result_def)
  then show ?thesis
    by (simp only: Await_blocking_closing)
qed

text \<open>
  Claim C7. On a settled promise made by \<open>NewPromise\<close>, every call of \<open>Await\<close> whose
  context does not fire returns, after at most two more steps of the goroutine, the
  one result fixed by what the function returned: whatever state the promise is
  observed in, however long the caller is prepared to wait, and whatever the
  \<open>select\<close> would choose. Once \<open>done\<close> is closed that result is the stored one and
  \<open>Await\<close> returns it at once, leaving the promise unchanged for the next reader.
\<close>

theorem Await_same_result_for_all_readers:
  assumes "reachable zerov fn (p, c)" and "Settled c" and "2 \<le> n"
  shows "Await_blocking n zerov fn pick NotDone (p, c)
           = Some (val (settled_result zerov (fn ())), err (settled_result zerov (fn ())))
       \<and> (done_ch c = Closed \<longrightarrow>
            result c = settled_result zerov (fn ())
          \<and> Await zerov pick NotDone c = (Returned (val (result c)) (err (result c)), c))"
proof -
  obtain m where n: "n = Suc (Suc m)"
    using assms(3) by (metis One_nat_def Suc_1 Suc_le_D Suc_le_mono)
  from reachable_cases [OF assms(1)] assms(2)
  have "(p, c) = (Storing (settled_result zerov (fn ())),
               \<lparr>settled = 1, done_ch = Open, result = \<lparr>val = zerov, err = None\<rparr>\<rparr>)
       \<or> (p, c) = (Closing, \<lparr>settled = 1, done_ch = Open, result = settled_result zerov (fn ())\<rparr>)
       \<or> (p, c) = (Exited, \<lparr>settled = 1, done_ch = Closed, result = settled_result zerov (fn ())\<rparr>)"
    by (auto simp: Settled_def LoadInt32_def)
  then show ?thesis
  proof (elim disjE)
    assume "(p, c) = (Storing (settled_result zerov (fn ())),
               \<lparr>settled = 1, done_ch = Open, result = \<lparr>val = zerov, err = None\<rparr>\<rparr>)"
    then show ?thesis
      using Await_blocking_storing [of m zerov fn pick] by (simp add: n)
  next
    assume "(p, c) = (Closing, \<lparr>settled = 1, done_ch = Open, result = settled_result zerov (fn ())\<rparr>)"
    then show ?thesis
      using Await_blocking_closing [of "Suc m" zerov fn pick] by (simp add: n)
  next
    assume "(p, c) = (Exited, \<lparr>settled = 1, done_ch = Closed, result = settled_result zerov (fn ())\<rparr>)"
    then show ?thesis
      using Await_blocking_exited [of n zerov fn pick] by (simp add: Await_def)
  qed
qed

theorem Await_same_result_for_all_readers_witness:
  "reachable (0::int) (returning 42 None) (goroutine_step 0 (returning 42 None) (NewPromise 0 (returning 42 None)))
   \<and> Settled (snd (goroutine_step (0::int) (returning 42 None) (NewPromise 0 (returning 42 None))))
   \<and> (2::nat) \<le> 5
   \<and> Await_blocking 5 0 (returning 42 None) True NotDone
        (goroutine_step (0::int) (returning 42 None) (NewPromise 0 (returning 42 None)))
      = Some (42, None)"
proof -
  let ?fn = "returning (42::int) None"
  let ?c = "\<lparr>settled = 1, done_ch = Open, result = \<lparr>val = 0::int, err = None\<rparr>\<rparr>"
  have st: "goroutine_step 0 ?fn (NewPromise 0 ?fn) = (Storing \<lparr>val = 42, err = None\<rparr>, ?c)"
    by (simp add: goroutine_step_new settled_result_def returning_def)
  have h1: "reachable 0 ?fn (Storing \<lparr>val = 42, err = None\<rparr>, ?c)"
    using reachable_step [OF reachable_new, of 0 ?fn] by (simp only: st)
  have h2: "Settled ?c"
    by (simp add: Settled_def LoadInt32_def)
  have h3: "(2::nat) \<le> 5" by simp
  from Await_same_result_for_all_readers [OF h1 h2 h3, of True]
  show ?thesis using h1 h2 by (simp add: st settled_result_def returning_def)
qed

section \<open>How \<open>NewPromise\<close> settles\<close>

lemma goroutine_runs_to_exit:
  "(goroutine_step zerov fn ^^ 3) (NewPromise zerov fn) =
     (Exited, \<lparr>settled = 1, done_ch = Closed, result = settled_result zerov (fn ())\<rparr>)"
  by (simp add: numeral_3_eq_3 goroutine_step_new goroutine_step_storing goroutine_step_closing
      del: goroutine_step.simps)

text \<open>
  Claim C9. When the function returns \<open>(v, e)\<close>, the goroutine of \<open>NewPromise\<close> ends
  after three steps with the promise settled, \<open>done\<close> closed, and the stored result
  the zero value with \<open>e\<close> if \<open>e\<close> is not \<open>nil\<close>, and \<open>v\<close> with \<open>nil\<close> otherwise;
  this is the effect of \<open>reject(e)\<close> in the first case and of \<open>resolve(v)\<close> in the
  second. In every state with \<open>done\<close> closed the stored error is non-nil exactly when
  \<open>e\<close> is, and then \<open>Await\<close> returns the zero value and \<open>e\<close>, not \<open>v\<close>.
\<close>

theorem NewPromise_rejects_iff_error:
  assumes "fn () = (v, e)"
  shows "(goroutine_step zerov fn ^^ 3) (NewPromise zerov fn) =
           (Exited, \<lparr>settled = 1, done_ch = Closed,
                     result = (if e \<noteq> None then \<lparr>val = zerov, err = e\<rparr>
                               else \<lparr>val = v, err = None\<rparr>)\<rparr>)
       \<and> Inr (snd ((goroutine_step zerov fn ^^ 3) (NewPromise zerov fn))) =
           (if e \<noteq> None then reject zerov e (snd (NewPromise zerov fn))
            else resolve v (snd (NewPromise zerov fn)))
       \<and> (\<forall>p c pick. reachable zerov fn (p, c) \<and> done_ch c = Closed \<longrightarrow>
             (err (result c) \<noteq> None \<longleftrightarrow> e \<noteq> None)
           \<and> (e \<noteq> None \<longrightarrow> Await zerov pick NotDone c = (Returned zerov e, c)))"
proof (intro conjI allI impI)
  show run: "(goroutine_step zerov fn ^^ 3) (NewPromise zerov fn) =
           (Exited, \<lparr>settled = 1, done_ch = Closed,
                     result = (if e \<noteq> None then \<lparr>val = zerov, err = e\<rparr>
                               else \<lparr>val = v, err = None\<rparr>)\<rparr>)"
    using assms by (simp only: goroutine_runs_to_exit) (simp add: settled_result_def)
  show "Inr (snd ((goroutine_step zerov fn ^^ 3) (NewPromise zerov fn))) =
           (if e \<noteq> None then reject zerov e (snd (NewPromise zerov fn))
            else resolve v (snd (NewPromise zerov fn)))"
    by (simp only: run) (simp add: NewPromise_def reject_pending resolve_pending)
next
  fix p c pick
  assume a: "reachable zerov fn (p, c) \<and> done_ch c = Closed"
  then have r: "result c = settled_result zerov (fn ())"
    using reachable_closed_result [of zerov fn p c] by blast
  show "err (result c) \<noteq> None \<longleftrightarrow> e \<noteq> None"
    using assms r by (simp add: settled_result_def)
  show "Await zerov pick NotDone c = (Returned zerov e, c)" if "e \<noteq> None"
    using assms r a that by (simp add: Await_def settled_result_def)
qed

theorem NewPromise_rejects_iff_error_witness:
  "returning (7::int) (Some (ErrorString ''darn'')) () = (7, Some (ErrorString ''darn''))
   \<and> (goroutine_step 0 (returning (7::int) (Some (ErrorString ''darn''))) ^^ 3)
        (NewPromise 0 (returning 7 (Some (ErrorString ''darn'')))) =
       (Exited, \<lparr>settled = 1, done_ch = Closed,
                 result = \<lparr>val = 0, err = Some (ErrorString ''darn'')\<rparr>\<rparr>)
   \<and> Await 0 True NotDone
        (snd ((goroutine_step 0 (returning (7::int) (Some (ErrorString ''darn''))) ^^ 3)
           (NewPromise 0 (returning 7 (Some (ErrorString ''darn''))))))
      = (Returned 0 (Some (ErrorString ''darn'')),
         \<lparr>settled = 1, done_ch = Closed, result = \<lparr>val = 0, err = Some (ErrorString ''darn'')\<rparr>\<rparr>)"
proof -
  let ?fn = "returning (7::int) (Some (ErrorString ''darn''))"
  have h: "?fn () = (7, Some (ErrorString ''darn''))" by (simp add: returning_def)
  note t = NewPromise_rejects_iff_error [of ?fn 7 "Some (ErrorString ''darn'')" 0, OF h]
  have run: "(goroutine_step 0 ?fn ^^ 3) (NewPromise 0 ?fn) =
       (Exited, \<lparr>settled = 1, done_ch = Closed,
                 result = \<lparr>val = 0, err = Some (ErrorString ''darn'')\<rparr>\<rparr>)"
    using t by simp
  show ?thesis
    using run h by (simp add: Await_def)
qed

section \<open>The value returned with an error\<close>

text \<open>
  Claim C10. When \<open>Await\<close> on a promise made by \<open>NewPromise\<close> returns through the
  \<open>ctx.Done()\<close> case (the context has fired and \<open>done\<close> is open, or both are ready
  and the \<open>select\<close> picks the context), it returns the zero value and the context's
  error. Whatever case it returns through, a non-nil error comes with the zero value.
\<close>

theorem Await_cancelled_returns_zero_value:
  assumes "reachable zerov fn (p, c)"
  shows "(done_ch c = Open \<or> pick \<longrightarrow>
            Await zerov pick (Done e) c = (Returned zerov (Some e), c))
       \<and> (\<forall>ctx v er. fst (Await zerov pick ctx c) = Returned v er \<longrightarrow> er = None \<or> v = zerov)"
proof (intro conjI allI impI)
  assume "done_ch c = Open \<or> pick"
  then show "Await zerov pick (Done e) c = (Returned zerov (Some e), c)"
    by (auto simp: Await_def)
next
  fix ctx v er
  assume r: "fst (Await zerov pick ctx c) = Returned v er"
  show "er = None \<or> v = zerov"
  proof (cases "ctx_Done ctx = Closed \<and> (done_ch c = Open \<or> pick)")
    case True
    then show ?thesis using r by (simp add: Await_def)
  next
    case False
    then have cl: "done_ch c = Closed" and ret: "v = val (result c)" "er = err (result c)"
      using r by (auto simp: Await_def split: if_splits)
    have "result c = settled_result zerov (fn ())"
      using assms cl by (rule reachable_closed_result)
    then show ?thesis
      using ret by (auto simp: settled_result_def split: prod.splits if_splits)
  qed
qed

theorem Await_cancelled_returns_zero_value_witness:
  "reachable (0::int) (returning 42 None) (NewPromise 0 (returning 42 None))
   \<and> done_ch (snd (NewPromise (0::int) (returning 42 None))) = Open
   \<and> Await 0 False (Done Canceled) (snd (NewPromise (0::int) (returning 42 None)))
       = (Returned 0 (Some Canceled), snd (NewPromise (0::int) (returning 42 None)))"
proof -
  let ?fn = "returning (42::int) None"
  have h1: "reachable 0 ?fn (Running, snd (NewPromise 0 ?fn))"
    using reachable_new [of 0 ?fn] by (simp add: NewPromise_def)
  have h2: "done_ch (snd (NewPromise 0 ?fn)) = Open"
    by (simp add: NewPromise_def)
  from Await_cancelled_returns_zero_value [OF h1, of False Canceled]
  show ?thesis using h1 h2 by (simp add: NewPromise_def)
qed

section \<open>\<open>All\<close>: invariants\<close>

lemma count_finished_finish:
  "i < length ws \<Longrightarrow> ws ! i \<noteq> Finished \<Longrightarrow>
   count_finished (ws[i := Finished]) = Suc (count_finished ws)"
proof (induction ws arbitrary: i)
  case Nil
  then show ?case by simp
next
  case (Cons w ws)
  then show ?case by (cases i) (auto simp: count_finished_def)
qed

lemma count_finished_keep:
  "ws ! i \<noteq> Finished \<Longrightarrow> w \<noteq> Finished \<Longrightarrow>
   count_finished (ws[i := w]) = count_finished ws"
proof (induction ws arbitrary: i)
  case Nil
  then show ?case by simp
next
  case (Cons w' ws)
  then show ?case by (cases i) (auto simp: count_finished_def)
qed

lemma count_finished_le: "count_finished ws \<le> length ws"
  by (simp add: count_finished_def)

lemma count_finished_less:
  "i < length ws \<Longrightarrow> ws ! i \<noteq> Finished \<Longrightarrow> count_finished ws < length ws"
  unfolding count_finished_def by (rule length_filter_less [of "ws ! i"]) simp_all

lemma count_finished_all:
  "count_finished ws = length ws \<Longrightarrow> i < length ws \<Longrightarrow> ws ! i = Finished"
  using count_finished_less [of i ws] by auto

lemma cancel_not_NotDone: "cancel c \<noteq> NotDone"
  by (cases c) simp_all

lemma all_inv_init: "all_inv (length ps) (All_init zerov ctx ps)"
  by (simp add: all_inv_def All_init_def count_finished_def)

lemma all_inv_Work: "all_inv n s \<Longrightarrow> all_inv n (all_step zerov (Work j) s)"
  by (auto simp: all_inv_def split: option.splits)

lemma all_inv_Wait: "all_inv n s \<Longrightarrow> all_inv n (all_step zerov (Wait i pick) s)"
  by (auto simp: all_inv_def count_finished_finish count_finished_keep
      split: option.splits waiter.splits outcome.splits prod.splits)

lemma all_inv_Main: "all_inv n s \<Longrightarrow> all_inv n (all_step zerov Main s)"
  by (auto simp: all_inv_def cancel_not_NotDone split: option.splits list.splits)

lemma all_inv_ParentDone: "all_inv n s \<Longrightarrow> all_inv n (all_step zerov (ParentDone e) s)"
  by (auto simp: all_inv_def split: option.splits Context.splits)

lemma all_inv_step: "all_inv n s \<Longrightarrow> all_inv n (all_step zerov ev s)"
  by (cases ev) (simp_all only: all_inv_Work all_inv_Wait all_inv_Main all_inv_ParentDone)

lemma all_inv_run: "all_inv n s \<Longrightarrow> all_inv n (run_events zerov evs s)"
  by (induction evs arbitrary: s) (simp_all add: all_inv_step)

lemma run_events_append:
  "run_events zerov (evs @ evs') s = run_events zerov evs' (run_events zerov evs s)"
  by (induction evs arbitrary: s) simp_all

lemma returned_step: "returned s = Some r \<Longrightarrow> returned (all_step zerov ev s) = Some r"
  by (cases ev) (auto split: waiter.splits outcome.splits prod.splits Context.splits)

lemma returned_run: "returned s = Some r \<Longrightarrow> returned (run_events zerov evs s) = Some r"
  by (induction evs arbitrary: s) (simp_all add: returned_step)

lemma child_done_step: "child s \<noteq> NotDone \<Longrightarrow> child (all_step zerov ev s) \<noteq> NotDone"
  by (cases ev) (auto simp: cancel_not_NotDone
      split: waiter.splits outcome.splits prod.splits Context.splits option.splits list.splits)

lemma child_done_run: "child s \<noteq> NotDone \<Longrightarrow> child (run_events zerov evs s) \<noteq> NotDone"
  by (induction evs arbitrary: s) (simp_all add: child_done_step)

section \<open>\<open>All\<close> of no promises\<close>

lemma out_empty_step: "out s = [] \<Longrightarrow> out (all_step zerov ev s) = []"
  by (cases ev) (auto split: waiter.splits outcome.splits prod.splits Context.splits
      option.splits list.splits)

lemma empty_step:
  "out s = [] \<Longrightarrow> returned s = None \<or> returned s = Some (Some [], None) \<Longrightarrow>
   returned (all_step zerov ev s) = None \<or> returned (all_step zerov ev s) = Some (Some [], None)"
  by (cases ev) (auto split: waiter.splits outcome.splits prod.splits Context.splits
      option.splits list.splits)

lemma empty_run:
  "out s = [] \<Longrightarrow> returned s = None \<or> returned s = Some (Some [], None) \<Longrightarrow>
   out (run_events zerov evs s) = []
   \<and> (returned (run_events zerov evs s) = None
      \<or> returned (run_events zerov evs s) = Some (Some [], None))"
proof (induction evs arbitrary: s)
  case Nil
  then show ?case by simp
next
  case (Cons ev evs)
  from Cons.prems have "out (all_step zerov ev s) = []"
    and "returned (all_step zerov ev s) = None
       \<or> returned (all_step zerov ev s) = Some (Some [], None)"
    by (simp_all only: out_empty_step empty_step)
  then show ?case
    using Cons.IH [of "all_step zerov ev s"] by simp
qed

lemma empty_Main:
  "out s = [] \<Longrightarrow> returned s = None \<or> returned s = Some (Some [], None) \<Longrightarrow>
   returned (all_step zerov Main s) = Some (Some [], None)"
  by auto

text \<open>
  Claim C8. For every context and every schedule, \<open>All\<close> of the empty sequence
  returns at the first step of the calling goroutine, whatever happened before and
  whatever happens after, and what it returns is the empty (non-nil) slice with a
  \<open>nil\<close> error; it never returns anything else.
\<close>

theorem All_of_no_promises:
  "All_promises zerov (before @ Main # after) ctx [] = Some (Some [], None)
   \<and> (All_promises zerov evs ctx [] = None \<or> All_promises zerov evs ctx [] = Some (Some [], None))"
proof
  let ?s0 = "All_init zerov ctx ([] :: 'a promise list)"
  have init: "out ?s0 = []" "returned ?s0 = None \<or> returned ?s0 = Some (Some [], None)"
    by (simp_all add: All_init_def)
  let ?s1 = "run_events zerov before ?s0"
  from empty_run [OF init, of zerov before]
  have "returned (all_step zerov Main ?s1) = Some (Some [], None)"
    by (simp only: empty_Main)
  then have "returned (run_events zerov after (all_step zerov Main ?s1)) = Some (Some [], None)"
    by (rule returned_run)
  then show "All_promises zerov (before @ Main # after) ctx [] = Some (Some [], None)"
    by (simp add: All_promises_def run_events_append)
  show "All_promises zerov evs ctx [] = None \<or> All_promises zerov evs ctx [] = Some (Some [], None)"
    using empty_run [OF init, of zerov evs] by (simp add: All_promises_def)
qed

section \<open>Receiving from \<open>errc\<close>\<close>

lemma other_step:
  "ev \<noteq> Main \<Longrightarrow>
   returned (all_step zerov ev s) = returned s
   \<and> (errc (all_step zerov ev s) = errc s \<or> (\<exists>x. errc (all_step zerov ev s) = errc s @ [x]))"
  by (cases ev) (auto split: waiter.splits outcome.splits prod.splits Context.splits)

lemma drain_progress:
  "all_inv n s \<Longrightarrow> returned s = None \<Longrightarrow> errc s = replicate k None @ Some e # rest \<Longrightarrow>
   k < length (filter (\<lambda>ev. ev = Main) evs) \<Longrightarrow>
   returned (run_events zerov evs s) = Some (None, Some e)
   \<and> child (run_events zerov evs s) \<noteq> NotDone"
proof (induction evs arbitrary: s k rest)
  case Nil
  then show ?case by simp
next
  case (Cons ev evs)
  let ?s' = "all_step zerov ev s"
  have inv': "all_inv n ?s'"
    using Cons.prems(1) by (rule all_inv_step)
  show ?case
  proof (cases "ev = Main")
    case False
    then have more: "k < length (filter (\<lambda>ev. ev = Main) evs)"
      using Cons.prems(4) by simp
    from other_step [OF False, of zerov s]
    have ret': "returned ?s' = None"
      and "errc ?s' = errc s \<or> (\<exists>x. errc ?s' = errc s @ [x])"
      using Cons.prems(2) by simp_all
    then obtain rest' where "errc ?s' = replicate k None @ Some e # rest'"
      using Cons.prems(3) by auto
    from Cons.IH [OF inv' ret' this more] show ?thesis by simp
  next
    case True
    have "recvd s + length (errc s) \<le> n"
      using Cons.prems(1,2) count_finished_le [of "waiters s"] by (simp add: all_inv_def)
    then have lt: "recvd s < length (out s)"
      using Cons.prems(1,3) by (simp add: all_inv_def)
    show ?thesis
    proof (cases k)
      case 0
      then have "returned ?s' = Some (None, Some e)" and "child ?s' \<noteq> NotDone"
        using True lt Cons.prems(2,3) by (simp_all add: cancel_not_NotDone)
      then show ?thesis
        by (simp add: returned_run child_done_run)
    next
      case (Suc k')
      then have ret': "returned ?s' = None"
        and errc': "errc ?s' = replicate k' None @ Some e # rest"
        using True lt Cons.prems(2,3) by simp_all
      have more: "k' < length (filter (\<lambda>ev. ev = Main) evs)"
        using Cons.prems(4) True Suc by simp
      from Cons.IH [OF inv' ret' errc' more] show ?thesis by simp
    qed
  qed
qed

section \<open>\<open>All\<close> over promises that all succeed\<close>

lemma settles_with_step:
  "settles_with zerov p v \<Longrightarrow> settles_with zerov (promise_step zerov p) v"
proof (cases p)
  case (SyncPromise fn pc c)
  assume "settles_with zerov p v"
  then have "fn () = (v, None)" and "reachable zerov fn (pc, c)"
    using SyncPromise by simp_all
  then have "reachable zerov fn (goroutine_step zerov fn (pc, c))"
    by (simp add: reachable_step)
  then show ?thesis
    using SyncPromise \<open>fn () = (v, None)\<close> by (auto split: prod.splits)
next
  case (RP r)
  assume "settles_with zerov p v"
  then show ?thesis using RP by simp
qed

lemma settles_with_Await:
  assumes "settles_with zerov p v"
  shows "promise_Await zerov pick NotDone p = (Blocked, p)
       \<or> promise_Await zerov pick NotDone p = (Returned v None, p)"
proof (cases p)
  case (SyncPromise fn pc c)
  then have fn: "fn () = (v, None)" and r: "reachable zerov fn (pc, c)"
    using assms by simp_all
  show ?thesis
  proof (cases "done_ch c")
    case Open
    then show ?thesis using SyncPromise by (simp add: Await_def)
  next
    case Closed
    then have "result c = settled_result zerov (fn ())"
      using r by (simp add: reachable_closed_result)
    then show ?thesis
      using SyncPromise Closed fn by (simp add: Await_def settled_result_def)
  qed
next
  case (RP r)
  then show ?thesis
    using assms by (simp add: rp_Await_def Resolve_def)
qed

lemma reachable_three_steps:
  assumes "reachable zerov fn st"
  shows "goroutine_step zerov fn (goroutine_step zerov fn (goroutine_step zerov fn st)) =
           (Exited, \<lparr>settled = 1, done_ch = Closed, result = settled_result zerov (fn ())\<rparr>)"
  using reachable_cases [OF assms]
  by (elim disjE)
     (simp_all add: cas_settled_def CompareAndSwapInt32_def store_result_def close_done_def
       settled_result_def split: prod.splits)

lemma settles_with_Await_after_work:
  assumes "settles_with zerov p v"
  shows "promise_Await zerov pick NotDone (promise_step zerov (promise_step zerov (promise_step zerov p)))
           = (Returned v None, promise_step zerov (promise_step zerov (promise_step zerov p)))"
proof (cases p)
  case (SyncPromise fn pc c)
  then have fn: "fn () = (v, None)" and r: "reachable zerov fn (pc, c)"
    using assms by simp_all
  obtain p1 c1 where s1: "goroutine_step zerov fn (pc, c) = (p1, c1)" by fastforce
  obtain p2 c2 where s2: "goroutine_step zerov fn (p1, c1) = (p2, c2)" by fastforce
  obtain p3 c3 where s3: "goroutine_step zerov fn (p2, c2) = (p3, c3)" by fastforce
  from reachable_three_steps [OF r] s1 s2 s3
  have "c3 = \<lparr>settled = 1, done_ch = Closed, result = settled_result zerov (fn ())\<rparr>"
    by simp
  then have "Await zerov pick NotDone c3 = (Returned v None, c3)"
    using fn by (simp add: Await_def settled_result_def)
  then show ?thesis
    using SyncPromise s1 s2 s3 by simp
next
  case (RP r)
  then show ?thesis
    using assms by (simp add: rp_Await_def Resolve_def)
qed

lemma running_inv_init:
  "list_all2 (settles_with zerov) ps vs \<Longrightarrow> running_inv zerov vs (All_init zerov NotDone ps)"
  using all_inv_init [of ps zerov NotDone]
  by (auto simp: running_inv_def All_init_def WithCancel_def dest: list_all2_lengthD)

lemma running_inv_Work:
  assumes "running_inv zerov vs s"
  shows "running_inv zerov vs (all_step zerov (Work j) s)"
proof (cases "j < length (promises s)")
  case False
  then show ?thesis using assms by simp
next
  case True
  have ps: "list_all2 (settles_with zerov) (promises s) vs"
    using assms by (simp add: running_inv_def)
  then have "settles_with zerov (promises s ! j) (vs ! j)"
    using True by (simp add: list_all2_nthD)
  then have "settles_with zerov (promise_step zerov (promises s ! j)) (vs ! j)"
    by (rule settles_with_step)
  with ps have "list_all2 (settles_with zerov)
      ((promises s)[j := promise_step zerov (promises s ! j)]) (vs[j := vs ! j])"
    by (rule list_all2_update_cong)
  then have "list_all2 (settles_with zerov)
      ((promises s)[j := promise_step zerov (promises s ! j)]) vs"
    by simp
  moreover have "all_inv (length vs) (all_step zerov (Work j) s)"
    using assms by (simp only: running_inv_def all_inv_Work)
  ultimately show ?thesis
    using assms True by (simp add: running_inv_def)
qed

lemma running_inv_Wait:
  assumes "running_inv zerov vs s"
  shows "running_inv zerov vs (all_step zerov (Wait i pick) s)"
proof (cases "i < length (waiters s) \<and> i < length (promises s)")
  case False
  then show ?thesis using assms by auto
next
  case True
  have inv: "all_inv (length vs) s" and len: "length (waiters s) = length vs"
    "length (out s) = length vs" "length (promises s) = length vs"
    and ret: "returned s = None" and ch: "child s = NotDone"
    and ps: "list_all2 (settles_with zerov) (promises s) vs"
    and ws: "\<forall>k < length vs. waiter_ok (waiters s ! k) (out s ! k) (vs ! k)"
    and ec: "\<forall>e \<in> set (errc s). e = None"
    using assms by (auto simp: running_inv_def all_inv_def)
  have i: "i < length vs" using True len by simp
  have inv': "all_inv (length vs) (all_step zerov (Wait i pick) s)"
    using inv by (rule all_inv_Wait)
  show ?thesis
  proof (cases "waiters s ! i")
    case Finished
    then show ?thesis using assms True by simp
  next
    case Awaiting
    have sw: "settles_with zerov (promises s ! i) (vs ! i)"
      using ps True by (simp add: list_all2_nthD)
    from settles_with_Await [OF sw, of pick]
    show ?thesis
    proof
      assume "promise_Await zerov pick NotDone (promises s ! i) = (Blocked, promises s ! i)"
      then show ?thesis using assms True Awaiting ch by simp
    next
      assume a: "promise_Await zerov pick NotDone (promises s ! i) = (Returned (vs ! i) None, promises s ! i)"
      then have step: "all_step zerov (Wait i pick) s =
          s\<lparr>promises := (promises s)[i := promises s ! i],
            out := (out s)[i := vs ! i],
            waiters := (waiters s)[i := Sending None]\<rparr>"
        using True Awaiting ch by simp
      have "\<forall>k < length vs. waiter_ok ((waiters s)[i := Sending None] ! k)
              ((out s)[i := vs ! i] ! k) (vs ! k)"
        using ws len i by (auto simp: nth_list_update)
      then show ?thesis
        using inv' assms by (simp add: step running_inv_def del: all_step.simps)
    qed
  next
    case (Sending e)
    have e: "e = None" and o: "out s ! i = vs ! i"
      using ws i Sending by auto
    show ?thesis
    proof (cases "length (errc s) < length (out s)")
      case False
      then show ?thesis using assms True Sending by simp
    next
      case lt: True
      then have step: "all_step zerov (Wait i pick) s =
          s\<lparr>errc := errc s @ [None], waiters := (waiters s)[i := Finished]\<rparr>"
        using True Sending e by simp
      have "\<forall>k < length vs. waiter_ok ((waiters s)[i := Finished] ! k) (out s ! k) (vs ! k)"
        using ws len o i by (auto simp: nth_list_update)
      then show ?thesis
        using inv' assms by (simp add: step running_inv_def del: all_step.simps)
    qed
  qed
qed

lemma running_inv_Main:
  assumes "running_inv zerov vs s"
  shows "running_inv zerov vs (all_step zerov Main s)
       \<or> returned (all_step zerov Main s) = Some (Some vs, None)"
proof -
  have inv: "all_inv (length vs) s" and len: "length (waiters s) = length vs"
    "length (out s) = length vs" "length (promises s) = length vs"
    and ret: "returned s = None"
    and cnt: "recvd s + length (errc s) = count_finished (waiters s)"
    and ws: "\<forall>k < length vs. waiter_ok (waiters s ! k) (out s ! k) (vs ! k)"
    and ec: "\<forall>e \<in> set (errc s). e = None"
    using assms by (auto simp: running_inv_def all_inv_def)
  have inv': "all_inv (length vs) (all_step zerov Main s)"
    using inv by (rule all_inv_Main)
  show ?thesis
  proof (cases "recvd s < length (out s)")
    case True
    show ?thesis
    proof (cases "errc s")
      case Nil
      then show ?thesis using assms True ret by simp
    next
      case (Cons e q)
      then have "e = None" and "\<forall>e \<in> set q. e = None" using ec by simp_all
      then have step: "all_step zerov Main s = s\<lparr>errc := q, recvd := recvd s + 1\<rparr>"
        using True ret Cons by simp
      show ?thesis
        using inv' assms \<open>\<forall>e \<in> set q. e = None\<close>
        by (simp add: step running_inv_def del: all_step.simps)
    qed
  next
    case False
    then have "count_finished (waiters s) = length (waiters s)"
      using cnt len count_finished_le [of "waiters s"] by simp
    then have fin: "\<forall>k < length vs. waiters s ! k = Finished"
      using len by (simp add: count_finished_all)
    have "out s = vs"
    proof (rule nth_equalityI)
      show "length (out s) = length vs" by (rule len)
    next
      fix k assume "k < length (out s)"
      then have "k < length vs" using len by simp
      then show "out s ! k = vs ! k" using ws fin by fastforce
    qed
    then show ?thesis using False ret by simp
  qed
qed

lemma succeed_inv_step:
  assumes "succeed_inv zerov vs s" and "internal ev"
  shows "succeed_inv zerov vs (all_step zerov ev s)"
proof (cases "returned s = Some (Some vs, None)")
  case True
  then show ?thesis by (simp add: succeed_inv_def returned_step)
next
  case False
  then have r: "running_inv zerov vs s" using assms(1) by (simp add: succeed_inv_def)
  show ?thesis
  proof (cases ev)
    case (Work j)
    have "running_inv zerov vs (all_step zerov (Work j) s)"
      using r by (rule running_inv_Work)
    then show ?thesis by (simp add: Work succeed_inv_def del: all_step.simps)
  next
    case (Wait i pick)
    have "running_inv zerov vs (all_step zerov (Wait i pick) s)"
      using r by (rule running_inv_Wait)
    then show ?thesis by (simp add: Wait succeed_inv_def del: all_step.simps)
  next
    case Main
    then show ?thesis
      using running_inv_Main [OF r] by (simp add: succeed_inv_def del: all_step.simps)
  next
    case (ParentDone e)
    then show ?thesis using assms(2) by simp
  qed
qed

lemma succeed_inv_run:
  "succeed_inv zerov vs s \<Longrightarrow> list_all internal evs \<Longrightarrow>
   succeed_inv zerov vs (run_events zerov evs s)"
  by (induction evs arbitrary: s) (simp_all add: succeed_inv_step)

lemma running_inv_lengths:
  "running_inv zerov vs s \<Longrightarrow>
   length (promises s) = length vs \<and> length (waiters s) = length vs \<and> length (out s) = length vs"
  by (simp add: running_inv_def all_inv_def)

lemma running_inv_room:
  assumes "running_inv zerov vs s" and "j < length vs" and "waiters s ! j \<noteq> Finished"
  shows "length (errc s) < length (out s)"
proof -
  have "recvd s + length (errc s) = count_finished (waiters s)"
    and len: "length (waiters s) = length vs" "length (out s) = length vs"
    using assms(1) by (auto simp: running_inv_def all_inv_def)
  moreover have "count_finished (waiters s) < length (waiters s)"
    using assms(2,3) len count_finished_less [of j "waiters s"] by simp
  ultimately show ?thesis by simp
qed

lemma Work_waiters: "waiters (all_step zerov (Work j) s) = waiters s"
  by simp

lemma Work_promise:
  "j < length (promises s) \<Longrightarrow>
   promises (all_step zerov (Work j) s) ! j = promise_step zerov (promises s ! j)"
  by simp

lemma Wait_finished: "waiters s ! j = Finished \<Longrightarrow> all_step zerov (Wait j pick) s = s"
  by simp

lemma Wait_sending:
  assumes "running_inv zerov vs s" and "j < length vs" and "waiters s ! j = Sending e"
  shows "waiters (all_step zerov (Wait j pick) s) = (waiters s)[j := Finished]"
proof -
  have "length (errc s) < length (out s)"
    using assms by (simp add: running_inv_room)
  then show ?thesis
    using assms(2,3) running_inv_lengths [OF assms(1)] by simp
qed

lemma Wait_awaiting:
  assumes "running_inv zerov vs s" and "j < length vs" and "waiters s ! j = Awaiting"
    and "promise_Await zerov pick NotDone (promises s ! j) = (Returned v e, p')"
  shows "waiters (all_step zerov (Wait j pick) s) = (waiters s)[j := Sending e]"
proof -
  have "child s = NotDone" using assms(1) by (simp add: running_inv_def)
  then show ?thesis
    using assms(2,3,4) running_inv_lengths [OF assms(1)] by simp
qed

lemma block_finishes:
  assumes "running_inv zerov vs s" and "j < length vs"
  shows "running_inv zerov vs (run_events zerov (block j) s)
       \<and> waiters (run_events zerov (block j) s) ! j = Finished
       \<and> (\<forall>k. waiters s ! k = Finished \<longrightarrow> waiters (run_events zerov (block j) s) ! k = Finished)"
proof -
  let ?s1 = "all_step zerov (Work j) s"
  let ?s2 = "all_step zerov (Work j) ?s1"
  let ?s3 = "all_step zerov (Work j) ?s2"
  let ?s4 = "all_step zerov (Wait j False) ?s3"
  let ?s5 = "all_step zerov (Wait j False) ?s4"
  have run: "run_events zerov (block j) s = ?s5"
    by (simp add: block_def del: all_step.simps)
  have r1: "running_inv zerov vs ?s1" using assms(1) by (rule running_inv_Work)
  have r2: "running_inv zerov vs ?s2" using r1 by (rule running_inv_Work)
  have r3: "running_inv zerov vs ?s3" using r2 by (rule running_inv_Work)
  have r4: "running_inv zerov vs ?s4" using r3 by (rule running_inv_Wait)
  have r5: "running_inv zerov vs ?s5" using r4 by (rule running_inv_Wait)
  have j1: "j < length (promises s)" "j < length (promises ?s1)" "j < length (promises ?s2)"
    using assms(2) running_inv_lengths [OF assms(1)] running_inv_lengths [OF r1]
      running_inv_lengths [OF r2] by simp_all
  have jw: "j < length (waiters s)"
    using assms(2) running_inv_lengths [OF assms(1)] by simp
  have w3: "waiters ?s3 = waiters s"
    by (simp only: Work_waiters)
  have p3: "promises ?s3 ! j =
      promise_step zerov (promise_step zerov (promise_step zerov (promises s ! j)))"
    using j1 by (simp only: Work_promise)
  have "settles_with zerov (promises s ! j) (vs ! j)"
    using assms by (simp add: running_inv_def list_all2_nthD2)
  then have aw: "promise_Await zerov False NotDone (promises ?s3 ! j)
      = (Returned (vs ! j) None, promises ?s3 ! j)"
    by (simp only: p3 settles_with_Await_after_work)
  have w5: "waiters ?s5 = (waiters s)[j := Finished]"
  proof (cases "waiters s ! j")
    case Awaiting
    then have "waiters ?s3 ! j = Awaiting" by (simp only: w3)
    from Wait_awaiting [OF r3 assms(2) this aw]
    have w4: "waiters ?s4 = (waiters s)[j := Sending None]" by (simp only: w3)
    then have "waiters ?s4 ! j = Sending None" using jw by simp
    from Wait_sending [OF r4 assms(2) this]
    show ?thesis by (simp only: w4 list_update_overwrite)
  next
    case (Sending e)
    then have "waiters ?s3 ! j = Sending e" by (simp only: w3)
    from Wait_sending [OF r3 assms(2) this]
    have w4: "waiters ?s4 = (waiters s)[j := Finished]" by (simp only: w3)
    then have "waiters ?s4 ! j = Finished" using jw by simp
    then have "?s5 = ?s4" by (rule Wait_finished)
    then have "waiters ?s5 = waiters ?s4" by (rule arg_cong)
    then show ?thesis using w4 by (rule trans)
  next
    case Finished
    then have "waiters ?s3 ! j = Finished" by (simp only: w3)
    then have s4: "?s4 = ?s3" by (rule Wait_finished)
    then have "waiters ?s4 ! j = Finished" using \<open>waiters ?s3 ! j = Finished\<close> by simp
    then have "?s5 = ?s4" by (rule Wait_finished)
    then have "waiters ?s5 = waiters ?s4" by (rule arg_cong)
    also have "\<dots> = waiters ?s3" using s4 by (rule arg_cong)
    also have "\<dots> = waiters s" by (rule w3)
    also have "\<dots> = (waiters s)[j := Finished]"
      using list_update_id [of "waiters s" j] Finished by simp
    finally show ?thesis .
  qed
  have "waiters ?s5 ! j = Finished"
    using jw by (simp only: w5 nth_list_update_eq)
  moreover have "waiters ?s5 ! k = Finished" if "waiters s ! k = Finished" for k
    using that jw by (simp only: w5) (simp add: nth_list_update)
  ultimately show ?thesis
    using r5 by (simp only: run) blast
qed

lemma blocks_finish:
  assumes "running_inv zerov vs s" and "\<forall>j \<in> set js. j < length vs"
  shows "running_inv zerov vs (run_events zerov (concat (map block js)) s)
       \<and> (\<forall>j \<in> set js. waiters (run_events zerov (concat (map block js)) s) ! j = Finished)
       \<and> (\<forall>k. waiters s ! k = Finished \<longrightarrow>
              waiters (run_events zerov (concat (map block js)) s) ! k = Finished)"
  using assms
proof (induction js arbitrary: s)
  case Nil
  then show ?case by simp
next
  case (Cons j js)
  let ?s1 = "run_events zerov (block j) s"
  let ?s2 = "run_events zerov (concat (map block js)) ?s1"
  have run: "run_events zerov (concat (map block (j # js))) s = ?s2"
    by (simp add: run_events_append)
  have j: "j < length vs" and js: "\<forall>j \<in> set js. j < length vs"
    using Cons.prems(2) by simp_all
  from block_finishes [OF Cons.prems(1) j]
  have r1: "running_inv zerov vs ?s1" and f1: "waiters ?s1 ! j = Finished"
    and k1: "\<And>k. waiters s ! k = Finished \<Longrightarrow> waiters ?s1 ! k = Finished"
    by blast+
  from Cons.IH [OF r1 js]
  have r2: "running_inv zerov vs ?s2" and f2: "\<forall>j \<in> set js. waiters ?s2 ! j = Finished"
    and k2: "\<And>k. waiters ?s1 ! k = Finished \<Longrightarrow> waiters ?s2 ! k = Finished"
    by blast+
  show ?case
    unfolding run using r2 f2 k2 [OF f1] k2 [OF k1] by simp
qed

lemma count_finished_full:
  "(\<forall>k < length ws. ws ! k = Finished) \<Longrightarrow> count_finished ws = length ws"
  by (simp add: count_finished_def all_set_conv_all_nth)

lemma finished_out:
  assumes "running_inv zerov vs s" and "\<forall>k < length vs. waiters s ! k = Finished"
  shows "out s = vs"
proof (rule nth_equalityI)
  show "length (out s) = length vs"
    using assms(1) by (simp add: running_inv_lengths)
next
  fix k assume "k < length (out s)"
  then have k: "k < length vs"
    using assms(1) by (simp add: running_inv_lengths)
  then have "waiter_ok (waiters s ! k) (out s ! k) (vs ! k)"
    using assms(1) by (simp add: running_inv_def)
  then show "out s ! k = vs ! k"
    using assms(2) k by simp
qed

lemma drain_all:
  assumes "running_inv zerov vs s" and "\<forall>k < length vs. waiters s ! k = Finished"
    and "length (errc s) < m"
  shows "returned (run_events zerov (replicate m Main) s) = Some (Some vs, None)"
  using assms
proof (induction m arbitrary: s)
  case 0
  then show ?case by simp
next
  case (Suc m)
  have len: "length (waiters s) = length vs" "length (out s) = length vs"
    and ret: "returned s = None"
    and cnt: "recvd s + length (errc s) = count_finished (waiters s)"
    and ec: "\<forall>e \<in> set (errc s). e = None"
    using Suc.prems(1) by (auto simp: running_inv_def all_inv_def)
  have full: "recvd s + length (errc s) = length vs"
    using cnt count_finished_full [of "waiters s"] Suc.prems(2) len by simp
  show ?case
  proof (cases "errc s")
    case Nil
    then have "\<not> recvd s < length (out s)" using full len by simp
    then have "returned (all_step zerov Main s) = Some (Some (out s), None)"
      using ret by simp
    then have "returned (all_step zerov Main s) = Some (Some vs, None)"
      using finished_out [OF Suc.prems(1,2)] by simp
    then have "returned (run_events zerov (replicate m Main) (all_step zerov Main s))
        = Some (Some vs, None)"
      by (rule returned_run)
    then show ?thesis by (simp del: all_step.simps)
  next
    case (Cons e q)
    then have lt: "recvd s < length (out s)" using full len by simp
    have "e = None" using ec Cons by simp
    then have step: "all_step zerov Main s = s\<lparr>errc := q, recvd := recvd s + 1\<rparr>"
      using lt ret Cons by simp
    have rn: "returned (all_step zerov Main s) = None"
      unfolding step using ret by simp
    have r': "running_inv zerov vs (all_step zerov Main s)"
      using running_inv_Main [OF Suc.prems(1)] rn by (simp del: all_step.simps)
    have w': "\<forall>k < length vs. waiters (all_step zerov Main s) ! k = Finished"
      unfolding step using Suc.prems(2) by simp
    have l': "length (errc (all_step zerov Main s)) < m"
      unfolding step using Suc.prems(3) Cons by simp
    from Suc.IH [OF r' w' l'] show ?thesis by (simp del: all_step.simps)
  qed
qed

lemma finish_returns:
  assumes "succeed_inv zerov vs s"
  shows "returned (run_events zerov (finish (length vs)) s) = Some (Some vs, None)"
proof (cases "returned s = Some (Some vs, None)")
  case True
  then show ?thesis by (rule returned_run)
next
  case False
  then have r: "running_inv zerov vs s"
    using assms by (simp add: succeed_inv_def)
  let ?s1 = "run_events zerov (concat (map block [0..<length vs])) s"
  from blocks_finish [OF r, of "[0..<length vs]"]
  have r1: "running_inv zerov vs ?s1" and f1: "\<forall>k < length vs. waiters ?s1 ! k = Finished"
    by simp_all
  have "recvd ?s1 + length (errc ?s1) = count_finished (waiters ?s1)"
    and "length (waiters ?s1) = length vs"
    using r1 by (auto simp: running_inv_def all_inv_def)
  then have "length (errc ?s1) < Suc (length vs)"
    using count_finished_le [of "waiters ?s1"] by simp
  from drain_all [OF r1 f1 this]
  show ?thesis by (simp add: finish_def run_events_append)
qed

lemma settles_with_NewPromise_p:
  "settles_with zerov (NewPromise_p zerov (returning v None)) v"
  using reachable_new [of zerov "returning v None"]
  by (simp add: NewPromise_p_def NewPromise_def returning_def)

text \<open>
  Claim C3, amended. Let every promise of the sequence settle successfully, promise
  \<open>i\<close> with value \<open>vs ! i\<close>, and let the caller's context not have fired and not
  fire. Then under every schedule \<open>All\<close> either has not returned yet or has returned
  exactly \<open>vs\<close>, in the order of the promises, with a \<open>nil\<close> error; and it does
  return that as soon as the schedule goes on to let every goroutine finish.
\<close>

theorem All_of_successes:
  assumes "list_all2 (settles_with zerov) ps vs" and "list_all internal evs"
  shows "(All_promises zerov evs NotDone ps = None
          \<or> All_promises zerov evs NotDone ps = Some (Some vs, None))
       \<and> All_promises zerov (evs @ finish (length ps)) NotDone ps = Some (Some vs, None)"
proof -
  let ?s = "run_events zerov evs (All_init zerov NotDone ps)"
  have "succeed_inv zerov vs (All_init zerov NotDone ps)"
    using assms(1) by (simp add: succeed_inv_def running_inv_init)
  then have inv: "succeed_inv zerov vs ?s"
    using assms(2) by (rule succeed_inv_run)
  then have "returned ?s = None \<or> returned ?s = Some (Some vs, None)"
    by (auto simp: succeed_inv_def running_inv_def)
  moreover have "length ps = length vs"
    using assms(1) by (rule list_all2_lengthD)
  ultimately show ?thesis
    using finish_returns [OF inv] by (simp add: All_promises_def run_events_append)
qed

theorem All_of_successes_witness:
  "list_all2 (settles_with (0::int)) [NewPromise_p 0 (returning 42 None), RP (Resolve 43)] [42, 43]
   \<and> list_all internal [Wait 1 True, Work 0]
   \<and> All_promises (0::int) ([Wait 1 True, Work 0] @ finish (length [NewPromise_p (0::int) (returning 42 None), RP (Resolve 43)]))
        NotDone [NewPromise_p 0 (returning 42 None), RP (Resolve 43)]
      = Some (Some [42, 43], None)"
proof -
  let ?ps = "[NewPromise_p (0::int) (returning 42 None), RP (Resolve 43)]"
  have h1: "list_all2 (settles_with 0) ?ps [42, 43]"
    by (simp add: settles_with_NewPromise_p)
  have h2: "list_all internal [Wait 1 True, Work 0]"
    by simp
  from All_of_successes [OF h1 h2]
  show ?thesis using h1 h2 by blast
qed

text \<open>
  Claim C3 as stated leaves the caller's context out, and fails when it has fired: the
  one promise below settles successfully with 42, yet \<open>All\<close> called with a context
  past its deadline returns the \<open>nil\<close> slice and \<open>context.DeadlineExceeded\<close>.
\<close>

theorem All_under_cancelled_context_counterexample:
  "list_all2 (settles_with (0::int)) [NewPromise_p 0 (returning 42 None)] [42]
   \<and> All_promises (0::int) [Wait 0 False, Wait 0 False, Main, Work 0, Work 0, Work 0]
        (Done DeadlineExceeded) [NewPromise_p 0 (returning 42 None)]
      = Some (None, Some DeadlineExceeded)
   \<and> All_promises (0::int) [Wait 0 False, Wait 0 False, Main, Work 0, Work 0, Work 0]
        (Done DeadlineExceeded) [NewPromise_p 0 (returning 42 None)]
      \<noteq> Some (Some [42], None)"
proof -
  have s: "list_all2 (settles_with (0::int)) [NewPromise_p 0 (returning 42 None)] [42]"
    by (simp add: settles_with_NewPromise_p)
  have r: "All_promises (0::int) [Wait 0 False, Wait 0 False, Main, Work 0, Work 0, Work 0]
        (Done DeadlineExceeded) [NewPromise_p (0::int) (returning 42 None)]
      = Some (None, Some DeadlineExceeded)"
    by (simp add: All_promises_def All_init_def WithCancel_def NewPromise_p_def NewPromise_def
        Await_def returning_def cas_settled_def CompareAndSwapInt32_def store_result_def
        close_done_def)
  from s r show ?thesis by simp
qed

section \<open>A promise that yields an error ends \<open>All\<close>\<close>

lemma yields_error_step:
  "yields_error zerov p e \<Longrightarrow> yields_error zerov (promise_step zerov p) e"
proof (cases p)
  case (SyncPromise fn pc c)
  assume "yields_error zerov p e"
  then have f: "snd (fn ()) = Some e" and "reachable zerov fn (pc, c)"
    using SyncPromise by simp_all
  then have "reachable zerov fn (goroutine_step zerov fn (pc, c))"
    by (simp add: reachable_step)
  then show ?thesis
    using SyncPromise f by (auto split: prod.splits)
next
  case (RP r)
  assume "yields_error zerov p e"
  then show ?thesis using RP by simp
qed

lemma promise_Await_same: "snd (promise_Await zerov pick ctx p) = p"
  by (cases p) (simp_all add: Await_def rp_Await_def)

lemma yields_error_Await:
  assumes "yields_error zerov p e" and "promise_Await zerov pick ctx p = (Returned v x, p')"
  shows "x \<noteq> None"
proof (cases p)
  case (SyncPromise fn pc c)
  then have f: "snd (fn ()) = Some e" and r: "reachable zerov fn (pc, c)"
    using assms(1) by simp_all
  have a: "fst (Await zerov pick ctx c) = Returned v x"
    using assms(2) SyncPromise by (auto split: prod.splits)
  show ?thesis
  proof (cases "ctx_Done ctx = Closed \<and> (done_ch c = Open \<or> pick)")
    case True
    then obtain d where "ctx = Done d" by (cases ctx) simp_all
    then show ?thesis using a True by (auto simp: Await_def)
  next
    case False
    then have cl: "done_ch c = Closed" and x: "x = err (result c)"
      using a by (auto simp: Await_def split: if_splits)
    have "result c = settled_result zerov (fn ())"
      using r cl by (rule reachable_closed_result)
    then show ?thesis
      using x f by (auto simp: settled_result_def split: prod.splits)
  qed
next
  case (RP r)
  then have "err (rp_result r) = Some e"
    using assms(1) by simp
  moreover have "x = err (rp_result r)"
    using assms(2) RP by (simp add: rp_Await_def)
  ultimately show ?thesis by simp
qed

lemma yields_error_Await_after_work:
  assumes "yields_error zerov p e"
  shows "\<exists>v. promise_Await zerov False ctx (promise_step zerov (promise_step zerov (promise_step zerov p)))
           = (Returned v (Some e), promise_step zerov (promise_step zerov (promise_step zerov p)))"
proof (cases p)
  case (SyncPromise fn pc c)
  then have f: "snd (fn ()) = Some e" and r: "reachable zerov fn (pc, c)"
    using assms by simp_all
  obtain p1 c1 where s1: "goroutine_step zerov fn (pc, c) = (p1, c1)" by fastforce
  obtain p2 c2 where s2: "goroutine_step zerov fn (p1, c1) = (p2, c2)" by fastforce
  obtain p3 c3 where s3: "goroutine_step zerov fn (p2, c2) = (p3, c3)" by fastforce
  from reachable_three_steps [OF r] s1 s2 s3
  have "c3 = \<lparr>settled = 1, done_ch = Closed, result = settled_result zerov (fn ())\<rparr>"
    by simp
  then have "Await zerov False ctx c3 = (Returned zerov (Some e), c3)"
    using f by (auto simp: Await_def settled_result_def split: prod.splits)
  then show ?thesis
    using SyncPromise s1 s2 s3 by simp
next
  case (RP r)
  then show ?thesis
    using assms by (simp add: rp_Await_def)
qed

lemma failing_inv_init:
  "j < length ps \<Longrightarrow> yields_error zerov (ps ! j) e \<Longrightarrow>
   failing_inv zerov j e (length ps) (All_init zerov ctx ps)"
  using all_inv_init [of ps zerov ctx] by (simp add: failing_inv_def All_init_def)

lemma failing_inv_Work:
  assumes "failing_inv zerov j e n s"
  shows "failing_inv zerov j e n (all_step zerov (Work k) s)"
proof -
  have inv': "all_inv n (all_step zerov (Work k) s)"
    using assms by (simp only: failing_inv_def all_inv_Work)
  have y: "yields_error zerov (promises s ! j) e" and j: "j < length (promises s)"
    using assms by (auto simp: failing_inv_def all_inv_def)
  have "yields_error zerov (promises (all_step zerov (Work k) s) ! j) e"
  proof (cases "k = j")
    case True
    then show ?thesis using j y by (simp add: yields_error_step)
  next
    case False
    then show ?thesis using y by simp
  qed
  moreover have "returned (all_step zerov (Work k) s) = returned s"
    "waiters (all_step zerov (Work k) s) = waiters s"
    "errc (all_step zerov (Work k) s) = errc s"
    by simp_all
  ultimately show ?thesis
    using assms inv' by (simp add: failing_inv_def del: all_step.simps)
qed

lemma failing_inv_ParentDone:
  assumes "failing_inv zerov j e n s"
  shows "failing_inv zerov j e n (all_step zerov (ParentDone d) s)"
proof -
  have inv': "all_inv n (all_step zerov (ParentDone d) s)"
    using assms by (simp only: failing_inv_def all_inv_ParentDone)
  have "returned (all_step zerov (ParentDone d) s) = returned s"
    "waiters (all_step zerov (ParentDone d) s) = waiters s"
    "errc (all_step zerov (ParentDone d) s) = errc s"
    "promises (all_step zerov (ParentDone d) s) = promises s"
    by (simp_all split: Context.splits)
  then show ?thesis
    using assms inv' by (simp add: failing_inv_def del: all_step.simps)
qed

lemma waiter_failing_append:
  "waiter_failing w q \<Longrightarrow> waiter_failing w (q @ [x])"
  by (cases w) auto

lemma failing_inv_Wait:
  assumes "failing_inv zerov j e n s"
  shows "failing_inv zerov j e n (all_step zerov (Wait i pick) s)"
proof (cases "i < length (waiters s) \<and> i < length (promises s)")
  case False
  then show ?thesis using assms by auto
next
  case True
  have inv: "all_inv n s" and len: "length (waiters s) = n" "length (promises s) = n"
    and j: "j < n" and ret: "returned s = None"
    and y: "yields_error zerov (promises s ! j) e"
    and w: "waiter_failing (waiters s ! j) (errc s)"
    using assms by (auto simp: failing_inv_def all_inv_def)
  have inv': "all_inv n (all_step zerov (Wait i pick) s)"
    using inv by (rule all_inv_Wait)
  show ?thesis
  proof (cases "waiters s ! i")
    case Finished
    then show ?thesis using assms True by simp
  next
    case Awaiting
    obtain r p' where a: "promise_Await zerov pick (child s) (promises s ! i) = (r, p')"
      by fastforce
    have p': "p' = promises s ! i"
      using promise_Await_same [of zerov pick "child s" "promises s ! i"] a by simp
    show ?thesis
    proof (cases r)
      case Blocked
      then show ?thesis using assms True Awaiting a by simp
    next
      case (Returned v x)
      then have step: "all_step zerov (Wait i pick) s =
          s\<lparr>promises := (promises s)[i := promises s ! i],
            out := (out s)[i := v],
            waiters := (waiters s)[i := Sending x]\<rparr>"
        using True Awaiting a p' by simp
      have "waiter_failing ((waiters s)[i := Sending x] ! j) (errc s)"
      proof (cases "i = j")
        case True
        then have "x \<noteq> None"
          using yields_error_Await [OF y] a Returned by simp
        then show ?thesis using True j len by simp
      next
        case False
        then show ?thesis using w by simp
      qed
      then show ?thesis
        using inv' j ret y by (simp add: step failing_inv_def del: all_step.simps)
    qed
  next
    case (Sending x)
    show ?thesis
    proof (cases "length (errc s) < length (out s)")
      case False
      then show ?thesis using assms True Sending by simp
    next
      case lt: True
      then have step: "all_step zerov (Wait i pick) s =
          s\<lparr>errc := errc s @ [x], waiters := (waiters s)[i := Finished]\<rparr>"
        using True Sending by simp
      have "waiter_failing ((waiters s)[i := Finished] ! j) (errc s @ [x])"
      proof (cases "i = j")
        case True
        then have "x \<noteq> None" using w Sending by simp
        then show ?thesis using True j len by auto
      next
        case False
        then show ?thesis using w by (simp add: waiter_failing_append)
      qed
      then show ?thesis
        using inv' j ret y by (simp add: step failing_inv_def del: all_step.simps)
    qed
  qed
qed

lemma failing_inv_Main:
  assumes "failing_inv zerov j e n s"
  shows "failing_inv zerov j e n (all_step zerov Main s)
       \<or> (\<exists>x. returned (all_step zerov Main s) = Some (None, Some x))
         \<and> child (all_step zerov Main s) \<noteq> NotDone"
proof -
  have inv: "all_inv n s" and len: "length (waiters s) = n" "length (out s) = n"
    and j: "j < n" and ret: "returned s = None"
    and cnt: "recvd s + length (errc s) = count_finished (waiters s)"
    and y: "yields_error zerov (promises s ! j) e"
    and w: "waiter_failing (waiters s ! j) (errc s)"
    using assms by (auto simp: failing_inv_def all_inv_def)
  have inv': "all_inv n (all_step zerov Main s)"
    using inv by (rule all_inv_Main)
  show ?thesis
  proof (cases "errc s")
    case Nil
    have "waiters s ! j \<noteq> Finished"
      using w Nil by auto
    then have "count_finished (waiters s) < length (waiters s)"
      using j len count_finished_less [of j "waiters s"] by simp
    then have "recvd s < length (out s)"
      using cnt len by simp
    then have "all_step zerov Main s = s"
      using ret Nil by simp
    then show ?thesis using assms by simp
  next
    case (Cons x q)
    have lt: "recvd s < length (out s)"
      using cnt len Cons count_finished_le [of "waiters s"] by simp
    show ?thesis
    proof (cases x)
      case None
      then have step: "all_step zerov Main s = s\<lparr>errc := q, recvd := recvd s + 1\<rparr>"
        using lt ret Cons by simp
      have "waiter_failing (waiters s ! j) q"
        using w Cons None by (cases "waiters s ! j") auto
      then show ?thesis
        using inv' j ret y by (simp add: step failing_inv_def del: all_step.simps)
    next
      case (Some d)
      then have "returned (all_step zerov Main s) = Some (None, Some d)"
        and "child (all_step zerov Main s) \<noteq> NotDone"
        using lt ret Cons by (simp_all add: cancel_not_NotDone)
      then show ?thesis by blast
    qed
  qed
qed

lemma fail_inv_step:
  assumes "fail_inv zerov j e n s"
  shows "fail_inv zerov j e n (all_step zerov ev s)"
proof (cases "failing_inv zerov j e n s")
  case False
  then obtain x where "returned s = Some (None, Some x)" and "child s \<noteq> NotDone"
    using assms by (auto simp: fail_inv_def)
  then have "returned (all_step zerov ev s) = Some (None, Some x)"
    and "child (all_step zerov ev s) \<noteq> NotDone"
    by (simp_all only: returned_step child_done_step not_False_eq_True)
  then show ?thesis by (simp add: fail_inv_def del: all_step.simps)
next
  case True
  show ?thesis
  proof (cases ev)
    case (Work k)
    have "failing_inv zerov j e n (all_step zerov (Work k) s)"
      using True by (rule failing_inv_Work)
    then show ?thesis by (simp add: Work fail_inv_def del: all_step.simps)
  next
    case (Wait i pick)
    have "failing_inv zerov j e n (all_step zerov (Wait i pick) s)"
      using True by (rule failing_inv_Wait)
    then show ?thesis by (simp add: Wait fail_inv_def del: all_step.simps)
  next
    case Main
    then show ?thesis
      using failing_inv_Main [OF True] by (simp add: fail_inv_def del: all_step.simps)
  next
    case (ParentDone d)
    have "failing_inv zerov j e n (all_step zerov (ParentDone d) s)"
      using True by (rule failing_inv_ParentDone)
    then show ?thesis by (simp add: ParentDone fail_inv_def del: all_step.simps)
  qed
qed

lemma fail_inv_run:
  "fail_inv zerov j e n s \<Longrightarrow> fail_inv zerov j e n (run_events zerov evs s)"
  by (induction evs arbitrary: s) (simp_all add: fail_inv_step del: all_step.simps)

lemma Wait_sends:
  assumes "all_inv n s" and "returned s = None" and "j < n" and "waiters s ! j = Sending x"
  shows "all_step zerov (Wait j pick) s =
           s\<lparr>errc := errc s @ [x], waiters := (waiters s)[j := Finished]\<rparr>"
proof -
  have len: "length (waiters s) = n" "length (out s) = n" "length (promises s) = n"
    and cnt: "recvd s + length (errc s) = count_finished (waiters s)"
    using assms(1,2) by (auto simp: all_inv_def)
  have "count_finished (waiters s) < length (waiters s)"
    using assms(3,4) len count_finished_less [of j "waiters s"] by simp
  then have "length (errc s) < length (out s)"
    using cnt len by simp
  then show ?thesis
    using assms(3,4) len by simp
qed

lemma Wait_returns:
  assumes "all_inv n s" and "j < n" and "waiters s ! j = Awaiting"
    and "promise_Await zerov pick (child s) (promises s ! j) = (Returned v x, p)"
  shows "all_step zerov (Wait j pick) s =
           s\<lparr>promises := (promises s)[j := p], out := (out s)[j := v],
             waiters := (waiters s)[j := Sending x]\<rparr>"
proof -
  have "length (waiters s) = n" "length (promises s) = n"
    using assms(1) by (auto simp: all_inv_def)
  then show ?thesis
    using assms(2,3,4) by simp
qed

lemma failing_block:
  assumes "failing_inv zerov j e n s"
  shows "failing_inv zerov j e n (run_events zerov (block j) s)
       \<and> waiters (run_events zerov (block j) s) ! j = Finished
       \<and> (waiters s ! j = Awaiting \<longrightarrow> errc (run_events zerov (block j) s) = errc s @ [Some e])"
proof -
  let ?s1 = "all_step zerov (Work j) s"
  let ?s2 = "all_step zerov (Work j) ?s1"
  let ?s3 = "all_step zerov (Work j) ?s2"
  let ?s4 = "all_step zerov (Wait j False) ?s3"
  let ?s5 = "all_step zerov (Wait j False) ?s4"
  have run: "run_events zerov (block j) s = ?s5"
    by (simp add: block_def del: all_step.simps)
  have r1: "failing_inv zerov j e n ?s1" using assms by (rule failing_inv_Work)
  have r2: "failing_inv zerov j e n ?s2" using r1 by (rule failing_inv_Work)
  have r3: "failing_inv zerov j e n ?s3" using r2 by (rule failing_inv_Work)
  have r4: "failing_inv zerov j e n ?s4" using r3 by (rule failing_inv_Wait)
  have r5: "failing_inv zerov j e n ?s5" using r4 by (rule failing_inv_Wait)
  have j: "j < n" and i3: "all_inv n ?s3" "returned ?s3 = None"
    and i4: "all_inv n ?s4" "returned ?s4 = None"
    using r3 r4 by (simp_all only: failing_inv_def)
  have jl: "j < length (promises s)" "j < length (promises ?s1)" "j < length (promises ?s2)"
    "j < length (waiters s)"
    using assms r1 r2 by (auto simp: failing_inv_def all_inv_def simp del: all_step.simps)
  have w3: "waiters ?s3 = waiters s" and e3: "errc ?s3 = errc s"
    by simp_all
  have p3: "promises ?s3 ! j =
      promise_step zerov (promise_step zerov (promise_step zerov (promises s ! j)))"
    using jl by (simp only: Work_promise)
  have "yields_error zerov (promises s ! j) e"
    using assms by (simp add: failing_inv_def)
  from yields_error_Await_after_work [OF this, of "child ?s3"]
  obtain v where aw: "promise_Await zerov False (child ?s3) (promises ?s3 ! j)
      = (Returned v (Some e), promises ?s3 ! j)"
    by (auto simp only: p3)
  have "waiters ?s5 ! j = Finished
      \<and> (waiters s ! j = Awaiting \<longrightarrow> errc ?s5 = errc s @ [Some e])"
  proof (cases "waiters s ! j")
    case Awaiting
    then have "waiters ?s3 ! j = Awaiting" by (simp only: w3)
    from Wait_returns [OF i3(1) j this aw]
    have s4: "?s4 = ?s3\<lparr>promises := (promises ?s3)[j := promises ?s3 ! j],
        out := (out ?s3)[j := v], waiters := (waiters ?s3)[j := Sending (Some e)]\<rparr>" .
    have w4: "waiters ?s4 = (waiters s)[j := Sending (Some e)]" and e4: "errc ?s4 = errc s"
      by (simp_all only: s4 w3 e3) simp_all
    have "waiters ?s4 ! j = Sending (Some e)"
      using jl by (simp only: w4 nth_list_update_eq)
    from Wait_sends [OF i4 j this]
    have s5: "?s5 = ?s4\<lparr>errc := errc ?s4 @ [Some e],
        waiters := (waiters ?s4)[j := Finished]\<rparr>" .
    have "waiters ?s5 = (waiters s)[j := Finished]" and "errc ?s5 = errc s @ [Some e]"
      by (simp_all only: s5 w4 e4) simp_all
    then show ?thesis
      using jl by (simp del: all_step.simps)
  next
    case (Sending x)
    then have "waiters ?s3 ! j = Sending x" by (simp only: w3)
    from Wait_sends [OF i3 j this]
    have s4: "?s4 = ?s3\<lparr>errc := errc ?s3 @ [x], waiters := (waiters ?s3)[j := Finished]\<rparr>" .
    have w4: "waiters ?s4 = (waiters s)[j := Finished]"
      by (simp only: s4 w3) simp
    then have f4: "waiters ?s4 ! j = Finished"
      using jl by simp
    then have "?s5 = ?s4" by (rule Wait_finished)
    then have "waiters ?s5 ! j = waiters ?s4 ! j" by (rule arg_cong)
    then show ?thesis using f4 Sending by (simp del: all_step.simps)
  next
    case Finished
    then have f3: "waiters ?s3 ! j = Finished" by (simp only: w3)
    then have s4: "?s4 = ?s3" by (rule Wait_finished)
    then have "waiters ?s4 ! j = waiters ?s3 ! j" by (rule arg_cong)
    then have f4: "waiters ?s4 ! j = Finished" using f3 by (simp del: all_step.simps)
    then have "?s5 = ?s4" by (rule Wait_finished)
    then have "waiters ?s5 ! j = waiters ?s4 ! j" by (rule arg_cong)
    then show ?thesis using f4 Finished by (simp del: all_step.simps)
  qed
  then show ?thesis
    using r5 unfolding run by blast
qed

lemma first_error_split:
  assumes "\<exists>x \<in> set q. x \<noteq> None"
  shows "\<exists>k d rest. q = replicate k None @ Some d # rest"
proof -
  from split_list_first_prop [OF assms]
  obtain ys x zs where q: "q = ys @ x # zs" and x: "x \<noteq> None"
    and ys: "\<forall>y \<in> set ys. \<not> y \<noteq> None"
    by blast
  have "ys = replicate (length ys) None"
    using ys by (simp add: replicate_length_same)
  moreover obtain d where "x = Some d" using x by auto
  ultimately show ?thesis using q by metis
qed

lemma failing_returns:
  assumes "fail_inv zerov j e n s"
  shows "\<exists>x. returned (run_events zerov (block j @ replicate (Suc n) Main) s) = Some (None, Some x)
           \<and> child (run_events zerov (block j @ replicate (Suc n) Main) s) \<noteq> NotDone"
proof (cases "failing_inv zerov j e n s")
  case False
  then obtain x where "returned s = Some (None, Some x)" and "child s \<noteq> NotDone"
    using assms by (auto simp: fail_inv_def)
  then have "returned (run_events zerov (block j @ replicate (Suc n) Main) s) = Some (None, Some x)"
    and "child (run_events zerov (block j @ replicate (Suc n) Main) s) \<noteq> NotDone"
    by (simp_all only: returned_run child_done_run not_False_eq_True)
  then show ?thesis by blast
next
  case True
  let ?s1 = "run_events zerov (block j) s"
  from failing_block [OF True]
  have f1: "failing_inv zerov j e n ?s1" and w1: "waiters ?s1 ! j = Finished"
    by simp_all
  have inv: "all_inv n ?s1" and ret: "returned ?s1 = None"
    and "waiter_failing (waiters ?s1 ! j) (errc ?s1)"
    using f1 by (simp_all only: failing_inv_def)
  then have "\<exists>x \<in> set (errc ?s1). x \<noteq> None"
    using w1 by simp
  from first_error_split [OF this]
  obtain k d rest where q: "errc ?s1 = replicate k None @ Some d # rest"
    by blast
  have "recvd ?s1 + length (errc ?s1) = count_finished (waiters ?s1)"
    and "length (waiters ?s1) = n"
    using inv ret by (auto simp: all_inv_def)
  then have "length (errc ?s1) \<le> n"
    using count_finished_le [of "waiters ?s1"] by simp
  then have "k < length (filter (\<lambda>ev. ev = Main) (replicate (Suc n) Main))"
    using q by simp
  from drain_progress [OF inv ret q this]
  show ?thesis
    by (simp only: run_events_append) blast
qed

lemma failing_alone:
  assumes "j < length ps" and "yields_error zerov (ps ! j) e"
  shows "returned (run_events zerov (block j @ [Main]) (All_init zerov ctx ps)) = Some (None, Some e)"
proof -
  let ?s0 = "All_init zerov ctx ps"
  let ?s1 = "run_events zerov (block j) ?s0"
  have f0: "failing_inv zerov j e (length ps) ?s0"
    using assms by (rule failing_inv_init)
  have "waiters ?s0 ! j = Awaiting" and "errc ?s0 = []"
    using assms(1) by (simp_all add: All_init_def)
  with failing_block [OF f0]
  have f1: "failing_inv zerov j e (length ps) ?s1" and q: "errc ?s1 = replicate 0 None @ Some e # []"
    by simp_all
  have inv: "all_inv (length ps) ?s1" and ret: "returned ?s1 = None"
    using f1 by (simp_all only: failing_inv_def)
  have "0 < length (filter (\<lambda>ev. ev = Main) [Main])" by simp
  from drain_progress [OF inv ret q this]
  show ?thesis
    by (simp only: run_events_append)
qed

text \<open>
  Claim C4. Let promise \<open>j\<close> of the sequence yield the error \<open>e\<close>; the other
  promises, the caller's context and the schedule are arbitrary. Then \<open>All\<close> never
  returns a value sequence: under every schedule it has not returned yet, or has
  returned the \<open>nil\<close> slice with an error and the child context has fired. It does
  return so as soon as the schedule goes on with the goroutine and the waiter of
  promise \<open>j\<close> and then the calling goroutine, no other waiter being waited for; and
  when nothing else has run it returns \<open>e\<close> itself. The error returned is the first
  one in the channel: if \<open>errc\<close> holds \<open>k\<close> \<open>nil\<close> errors followed by \<open>d\<close>, more
  than \<open>k\<close> further steps of the calling goroutine return the \<open>nil\<close> slice with
  \<open>d\<close>, whatever the waiters do meanwhile.
\<close>

theorem All_short_circuits_on_error:
  assumes "j < length ps" and "yields_error zerov (ps ! j) e"
  shows "(All_promises zerov evs ctx ps = None
          \<or> (\<exists>x. All_promises zerov evs ctx ps = Some (None, Some x))
            \<and> child (run_events zerov evs (All_init zerov ctx ps)) \<noteq> NotDone)
       \<and> (\<exists>x. All_promises zerov (evs @ block j @ replicate (Suc (length ps)) Main) ctx ps
                 = Some (None, Some x)
              \<and> child (run_events zerov (evs @ block j @ replicate (Suc (length ps)) Main)
                   (All_init zerov ctx ps)) \<noteq> NotDone)
       \<and> All_promises zerov (block j @ [Main]) ctx ps = Some (None, Some e)
       \<and> (returned (run_events zerov evs (All_init zerov ctx ps)) = None
            \<and> errc (run_events zerov evs (All_init zerov ctx ps)) = replicate k None @ Some d # rest
            \<and> k < length (filter (\<lambda>ev. ev = Main) evs')
          \<longrightarrow> returned (run_events zerov evs' (run_events zerov evs (All_init zerov ctx ps)))
                = Some (None, Some d)
            \<and> child (run_events zerov evs' (run_events zerov evs (All_init zerov ctx ps)))
                \<noteq> NotDone)"
proof (intro conjI impI)
  let ?init = "All_init zerov ctx ps"
  let ?s = "run_events zerov evs ?init"
  have "fail_inv zerov j e (length ps) ?init"
    using failing_inv_init [OF assms, of ctx] by (simp add: fail_inv_def)
  then have inv: "fail_inv zerov j e (length ps) ?s"
    by (rule fail_inv_run)
  then show "All_promises zerov evs ctx ps = None
          \<or> (\<exists>x. All_promises zerov evs ctx ps = Some (None, Some x))
            \<and> child ?s \<noteq> NotDone"
    by (auto simp: fail_inv_def failing_inv_def All_promises_def)
  from failing_returns [OF inv]
  show "\<exists>x. All_promises zerov (evs @ block j @ replicate (Suc (length ps)) Main) ctx ps
                 = Some (None, Some x)
              \<and> child (run_events zerov (evs @ block j @ replicate (Suc (length ps)) Main) ?init)
                   \<noteq> NotDone"
    by (simp only: All_promises_def run_events_append)
  show "All_promises zerov (block j @ [Main]) ctx ps = Some (None, Some e)"
    using failing_alone [OF assms] by (simp only: All_promises_def)
next
  let ?s = "run_events zerov evs (All_init zerov ctx ps)"
  assume a: "returned ?s = None
            \<and> errc ?s = replicate k None @ Some d # rest
            \<and> k < length (filter (\<lambda>ev. ev = Main) evs')"
  have inv: "all_inv (length ps) ?s"
    by (rule all_inv_run [OF all_inv_init])
  from a have a1: "returned ?s = None" and a2: "errc ?s = replicate k None @ Some d # rest"
    and a3: "k < length (filter (\<lambda>ev. ev = Main) evs')"
    by simp_all
  from drain_progress [OF inv a1 a2 a3]
  show "returned (run_events zerov evs' ?s) = Some (None, Some d)"
    and "child (run_events zerov evs' ?s) \<noteq> NotDone"
    by simp_all
qed

theorem All_short_circuits_on_error_witness:
  "(1::nat) < length [NewPromise_p (0::int) (returning 42 None),
                      NewPromise_p 0 (returning 0 (Some (ErrorString ''doh!'')))]
   \<and> yields_error (0::int)
        ([NewPromise_p 0 (returning 42 None),
          NewPromise_p 0 (returning 0 (Some (ErrorString ''doh!'')))] ! 1)
        (ErrorString ''doh!'')
   \<and> All_promises (0::int) (block 1 @ [Main]) NotDone
        [NewPromise_p 0 (returning 42 None),
         NewPromise_p 0 (returning 0 (Some (ErrorString ''doh!'')))]
      = Some (None, Some (ErrorString ''doh!''))"
proof -
  let ?ps = "[NewPromise_p (0::int) (returning 42 None),
              NewPromise_p 0 (returning 0 (Some (ErrorString ''doh!'')))]"
  have h1: "(1::nat) < length ?ps" by simp
  have h2: "yields_error 0 (?ps ! 1) (ErrorString ''doh!'')"
    using reachable_new [of 0 "returning (0::int) (Some (ErrorString ''doh!''))"]
    by (simp add: NewPromise_p_def NewPromise_def returning_def)
  from All_short_circuits_on_error [OF h1 h2]
  show ?thesis using h1 h2 by blast
qed

end
